theory Spec2Isabelle
  imports Complex_Main "HOL-Library.Char_ord" "HOL-Library.List_Lexorder"
begin

section \<open>Errors\<close>

text \<open>
  The Python exceptions the notebook can raise, as values.  The specification names the
  failures abstractly; the code raises the built-in exceptions listed here:
  a failed \<^verbatim>\<open>assert\<close> is \<open>AssertionError\<close> (the specification's ConfigError),
  a dictionary lookup of a missing key is \<open>KeyError\<close> (UnknownSymbolError),
  an embedding or tensor index out of range is \<open>IndexError\<close> (ContextOverflowError for the
  position table), a shape mismatch inside a tensor operation is \<open>RuntimeError\<close>, and
  numpy's argument checks raise \<open>ValueError\<close>.
\<close>

datatype error = AssertionError | KeyError | IndexError | RuntimeError | ValueError

section \<open>Tokenizer\<close>

text \<open>\<^verbatim>\<open>list(s)\<close> of a string: its characters, each a string of length one.\<close>

definition chars :: "string \<Rightarrow> string list" where
  "chars s = map (\<lambda>c. [c]) s"

text \<open>
  \<^verbatim>\<open>vocab = sorted(['0', ..., '9', '10', '+', '=', '<START>', '<END>', '<PAD>'])\<close>
  The ten one-character digit symbols of the literal are written \<open>chars ''0123456789''\<close>; the
  eleventh entry is the two-character symbol \<open>10\<close>.  Python compares strings by code
  point, which is the lexicographic order on \<open>char list\<close>.
\<close>

definition vocab :: "string list" where
  "vocab = sort (chars ''0123456789'' @ [''10'', ''+'', ''='', ''<START>'', ''<END>'', ''<PAD>''])"

definition vocab_size :: nat where
  "vocab_size = length vocab"

text \<open>
  \<^verbatim>\<open>ctoi = {vocab[i]:i for i in range(vocab_size)}\<close> and
  \<^verbatim>\<open>itoc = {i:vocab[i] for i in range(vocab_size)}\<close>: the comprehension stores the keys
  in increasing \<open>i\<close>, a later store overwriting an earlier one.
\<close>

definition ctoi :: "string \<rightharpoonup> int" where
  "ctoi = fold (\<lambda>i m. m(vocab ! i \<mapsto> int i)) [0..<vocab_size] Map.empty"

definition itoc :: "int \<rightharpoonup> string" where
  "itoc = fold (\<lambda>i m. m(int i \<mapsto> vocab ! i)) [0..<vocab_size] Map.empty"

text \<open>\<^verbatim>\<open>encode = lambda s: [ctoi[c] for c in s]\<close>; a missing key raises.\<close>

fun encode :: "string list \<Rightarrow> error + int list" where
  "encode [] = Inr []"
| "encode (c # s) =
     (case ctoi c of
        None \<Rightarrow> Inl KeyError
      | Some i \<Rightarrow> (case encode s of Inl e \<Rightarrow> Inl e | Inr r \<Rightarrow> Inr (i # r)))"

text \<open>\<^verbatim>\<open>decode = lambda s: [itoc[ix] for ix in s]\<close>\<close>

fun decode :: "int list \<Rightarrow> error + string list" where
  "decode [] = Inr []"
| "decode (ix # s) =
     (case itoc ix of
        None \<Rightarrow> Inl KeyError
      | Some c \<Rightarrow> (case decode s of Inl e \<Rightarrow> Inl e | Inr r \<Rightarrow> Inr (c # r)))"


section \<open>Batch generator\<close>

text \<open>
  \<^verbatim>\<open>str(a)\<close> for a Python integer: decimal digits, most significant first, a minus sign
  in front of a negative number.
\<close>

definition digit_char :: "nat \<Rightarrow> char" where
  "digit_char n = ''0123456789'' ! n"

fun str_nat :: "nat \<Rightarrow> string" where
  "str_nat n = (if n < 10 then [digit_char n] else str_nat (n div 10) @ [digit_char (n mod 10)])"

declare str_nat.simps [simp del]

definition str_int :: "int \<Rightarrow> string" where
  "str_int i = (if i < 0 then CHR ''-'' # str_nat (nat (- i)) else str_nat (nat i))"

text \<open>
  \<^verbatim>\<open>s.zfill(width)\<close>: zeros on the left up to \<open>width\<close> characters, after a leading sign;
  a string that is already as long is returned as it is.
\<close>

definition zfill :: "string \<Rightarrow> nat \<Rightarrow> string" where
  "zfill s width =
     (case s of
        [] \<Rightarrow> replicate width (CHR ''0'')
      | c # r \<Rightarrow>
          if c = CHR ''+'' \<or> c = CHR ''-''
          then c # replicate (width - length s) (CHR ''0'') @ r
          else replicate (width - length s) (CHR ''0'') @ s)"

text \<open>
  The state of numpy's global generator is the sequence of raw numbers it will still
  produce.  \<^verbatim>\<open>np.random.randint(low, high, size)\<close> returns \<open>n\<close> integers
  "from low (inclusive) to high (exclusive)" of dtype int64: each raw number is reduced to
  the interval, and the generator has moved on by \<open>n\<close> draws.  It raises ValueError
  when \<open>low >= high\<close> or when a bound does not fit int64.
\<close>

type_synonym np_rng = "nat \<Rightarrow> nat"

definition randint :: "int \<Rightarrow> int \<Rightarrow> nat \<Rightarrow> np_rng \<Rightarrow> error + (int list \<times> np_rng)" where
  "randint low high n g =
     (if high \<le> low \<or> low < - (2 ^ 63) \<or> 2 ^ 63 < high then Inl ValueError
      else Inr (map (\<lambda>i. low + int (g i) mod (high - low)) [0..<n], \<lambda>i. g (i + n)))"

text \<open>
  The body of the loop of \<^verbatim>\<open>generate_batch\<close> after the two operands are drawn, up to
  the padded problem (source lines 89 to 108).  \<open>block_size + 1 - tot_len\<close> is a natural
  number: a negative count makes \<^verbatim>\<open>['<PAD>'] * n\<close> the empty list in Python too.
\<close>

definition problem_of :: "nat \<Rightarrow> nat \<Rightarrow> bool \<Rightarrow> int \<Rightarrow> int \<Rightarrow> string list" where
  "problem_of block_size max_digits backward a b =
     (let c = a + b;
          prompt = chars (zfill (str_int a) max_digits @ ''+'' @ zfill (str_int b) max_digits @ ''='');
          answer = chars (zfill (str_int c) (max_digits + 1));
          answer = (if backward then rev answer else answer);
          prompt = ''<START>'' # prompt;
          answer = answer @ [''<END>''];
          problem = prompt @ answer;
          tot_len = length problem
      in problem @ replicate (block_size + 1 - tot_len) ''<PAD>'')"

text \<open>
  Source lines 111 to 121: the input and the target are slices of the problem, encoded;
  \<^verbatim>\<open>target[:2*max_digits+2] = -1\<close> overwrites the first \<open>2*max_digits+2\<close> entries
  (fewer when the target is shorter).
\<close>

definition example :: "nat \<Rightarrow> nat \<Rightarrow> bool \<Rightarrow> int \<Rightarrow> int \<Rightarrow> error + (int list \<times> int list)" where
  "example block_size max_digits backward a b =
     (let problem = problem_of block_size max_digits backward a b;
          inp = take block_size problem;
          target = take block_size (drop 1 problem)
      in case encode inp of
           Inl e \<Rightarrow> Inl e
         | Inr inp \<Rightarrow>
             (case encode target of
                Inl e \<Rightarrow> Inl e
              | Inr target \<Rightarrow>
                  Inr (inp, replicate (min (2 * max_digits + 2) (length target)) (- 1)
                              @ drop (2 * max_digits + 2) target)))"

text \<open>
  \<^verbatim>\<open>for b in range(batch_size)\<close>: each round draws the two operands
  \<^verbatim>\<open>a, b = np.random.randint(0, 10**max_digits-1, 2)\<close> and appends one example.  The
  operands are int64 values; with \<open>high \<le> 2^63\<close> checked by \<open>randint\<close> their sum stays
  below \<open>2^63\<close>, so \<open>a + b\<close> does not wrap.  The first argument counts the rounds left.
\<close>

fun batch_loop ::
  "nat \<Rightarrow> nat \<Rightarrow> nat \<Rightarrow> bool \<Rightarrow> np_rng \<Rightarrow> error + ((int list \<times> int list) list \<times> np_rng)" where
  "batch_loop 0 block_size max_digits backward g = Inr ([], g)"
| "batch_loop (Suc n) block_size max_digits backward g =
     (case randint 0 (10 ^ max_digits - 1) 2 g of
        Inl e \<Rightarrow> Inl e
      | Inr (ab, g') \<Rightarrow>
          (case example block_size max_digits backward (ab ! 0) (ab ! 1) of
             Inl e \<Rightarrow> Inl e
           | Inr r \<Rightarrow>
               (case batch_loop n block_size max_digits backward g' of
                  Inl e \<Rightarrow> Inl e
                | Inr (rs, g'') \<Rightarrow> Inr (r # rs, g''))))"

text \<open>
  \<^verbatim>\<open>generate_batch(block_size, batch_size, max_digits, backward)\<close>: the assertion on the
  block size comes first; \<^verbatim>\<open>torch.stack\<close> of an empty list raises RuntimeError.  All
  rows have \<open>block_size\<close> entries, so the stack has no other way to fail.  The result is
  the input batch, the target batch and the state of the generator.
\<close>

definition generate_batch ::
  "nat \<Rightarrow> nat \<Rightarrow> nat \<Rightarrow> bool \<Rightarrow> np_rng \<Rightarrow> error + (int list list \<times> int list list \<times> np_rng)" where
  "generate_batch block_size batch_size max_digits backward g =
     (let max_problem_size = 3 * max_digits + 7
      in if \<not> (block_size \<ge> max_problem_size) then Inl AssertionError
         else case batch_loop batch_size block_size max_digits backward g of
                Inl e \<Rightarrow> Inl e
              | Inr (rs, g') \<Rightarrow>
                  if rs = [] then Inl RuntimeError
                  else Inr (map fst rs, map snd rs, g'))"


section \<open>Auxiliary notions for the proofs about the batch generator\<close>

text \<open>
  The value of a decimal string, the id of a vocabulary symbol, and the two properties of
  a row that the loop of the batch generator establishes.  None of them is part of the
  program.
\<close>

definition digits :: "char set" where
  "digits = set ''0123456789''"

definition dval :: "char \<Rightarrow> nat" where
  "dval c = of_char c - 48"

definition sval :: "string \<Rightarrow> nat" where
  "sval s = foldl (\<lambda>acc c. 10 * acc + dval c) 0 s"

definition cti :: "string \<Rightarrow> int" where
  "cti c = the (ctoi c)"

definition row_ok :: "nat \<Rightarrow> nat \<Rightarrow> int list \<Rightarrow> int list \<Rightarrow> bool" where
  "row_ok bs d inp tgt \<longleftrightarrow>
     length inp = bs \<and> length tgt = bs \<and> ctoi ''='' = Some (inp ! (2 * d + 2))
     \<and> (\<forall>j<bs. (j \<le> 2 * d + 1 \<longrightarrow> tgt ! j = - 1)
               \<and> (2 * d + 1 < j \<longrightarrow> tgt ! j \<noteq> - 1 \<and> (j + 1 < bs \<longrightarrow> tgt ! j = inp ! (j + 1))))
     \<and> ctoi ''<PAD>'' = Some (tgt ! (bs - 1))"

definition no_nines :: "nat \<Rightarrow> int list \<Rightarrow> bool" where
  "no_nines d inp \<longleftrightarrow>
     take d (drop 1 inp) \<noteq> replicate d 11 \<and> take d (drop (d + 2) inp) \<noteq> replicate d 11"

section \<open>Tensors\<close>

text \<open>
  Activations are real vectors and matrices, lists of rows; tensor arithmetic is over the
  reals.  A batch of token ids of shape \<open>(B, T)\<close> keeps its number of columns, since an
  empty batch still has a \<open>T\<close>: \<^verbatim>\<open>B, T = idx.shape\<close>.
\<close>

type_synonym vec = "real list"

type_synonym mat = "real list list"

record itensor =
  ncols :: nat
  irows :: "int list list"

definition itensor_ok :: "itensor \<Rightarrow> bool" where
  "itensor_ok x = list_all (\<lambda>r. length r = ncols x) (irows x)"

text \<open>The first error of a list of results, or all the values.\<close>

fun collect :: "('e + 'a) list \<Rightarrow> 'e + 'a list" where
  "collect [] = Inr []"
| "collect (r # rs) =
     (case r of
        Inl e \<Rightarrow> Inl e
      | Inr v \<Rightarrow> (case collect rs of Inl e \<Rightarrow> Inl e | Inr vs \<Rightarrow> Inr (v # vs)))"

text \<open>
  The random numbers of torch's generator, addressed by the place of the draw: a dropout
  site and the coordinates of the element, or a sampling step and the row of the batch.
  \<open>sub tape k\<close> is the part of the tape below the coordinate \<open>k\<close>.
\<close>

type_synonym tape = "nat list \<Rightarrow> real"

definition sub :: "tape \<Rightarrow> nat \<Rightarrow> tape" where
  "sub tape k = (\<lambda>cs. tape (k # cs))"

section \<open>Layers\<close>

text \<open>
  \<^verbatim>\<open>nn.Linear(in_features, out_features, bias)\<close>: \<open>lin_weight\<close> has \<open>out_features\<close> rows of
  \<open>in_features\<close> entries; a row of the input is mapped to \<open>x W\<^sup>T + b\<close>.
\<close>

record nn_linear =
  in_features :: nat
  out_features :: nat
  lin_weight :: mat
  lin_bias :: "vec option"

definition dot :: "vec \<Rightarrow> vec \<Rightarrow> real" where
  "dot u v = sum_list (map2 (*) u v)"

definition linear_row :: "nn_linear \<Rightarrow> vec \<Rightarrow> vec" where
  "linear_row l x =
     (case lin_bias l of
        None \<Rightarrow> map (\<lambda>w. dot w x) (lin_weight l)
      | Some b \<Rightarrow> map2 (\<lambda>w c. dot w x + c) (lin_weight l) b)"

text \<open>
  \<^verbatim>\<open>nn.LayerNorm(embedding_dim)\<close>: each position is normalised by its own mean and (biased)
  variance over the features, then scaled and shifted.
\<close>

record nn_layer_norm =
  ln_weight :: vec
  ln_bias :: vec
  ln_eps :: real

definition mean :: "vec \<Rightarrow> real" where
  "mean v = sum_list v / real (length v)"

definition layer_norm_row :: "nn_layer_norm \<Rightarrow> vec \<Rightarrow> vec" where
  "layer_norm_row nrm v =
     (let mu = mean v;
          var = mean (map (\<lambda>x. (x - mu) ^ 2) v)
      in map2 (\<lambda>x (g, b). (x - mu) / sqrt (var + ln_eps nrm) * g + b) v
              (zip (ln_weight nrm) (ln_bias nrm)))"

text \<open>
  Dropout of one element with rate \<open>p\<close>: the input is returned as it is when \<open>p = 0\<close> or
  outside training, everything is zeroed when \<open>p = 1\<close>, and otherwise the element is kept
  with probability \<open>1 - p\<close> (the draw \<open>u\<close> is uniform on \<open>[0, 1)\<close>) and rescaled.
\<close>

definition dropout :: "real \<Rightarrow> bool \<Rightarrow> real \<Rightarrow> real \<Rightarrow> real" where
  "dropout p train u v =
     (if p = 0 \<or> \<not> train then v
      else if p = 1 then 0
      else if p \<le> u then v / (1 - p) else 0)"

definition dropout_mat :: "real \<Rightarrow> bool \<Rightarrow> tape \<Rightarrow> mat \<Rightarrow> mat" where
  "dropout_mat p train tape x =
     map (\<lambda>(t, row). map (\<lambda>(c, v). dropout p train (tape [t, c]) v) (enumerate 0 row))
         (enumerate 0 x)"

text \<open>
  Softmax of a row of scores.  A score is \<open>None\<close> where the causal mask has put
  \<open>-\<infinity>\<close>; its exponential is 0.
\<close>

definition expo :: "real option \<Rightarrow> real" where
  "expo s = (case s of None \<Rightarrow> 0 | Some x \<Rightarrow> exp x)"

definition softmax :: "real option list \<Rightarrow> real list" where
  "softmax ss = (let es = map expo ss; z = sum_list es in map (\<lambda>e. e / z) es)"

section \<open>Attention\<close>

text \<open>
  \<^verbatim>\<open>F.scaled_dot_product_attention(q, k, v, dropout_p, is_causal=True)\<close> for one batch
  element and one head, as the reference implementation in the documentation of torch has
  it: the scores \<open>q k\<^sup>T / sqrt(E)\<close>, the bias \<open>-\<infinity>\<close> outside the lower triangle
  (\<open>j \<le> i\<close> is kept), softmax over the keys, dropout of the weights, and the product
  with the values.  \<open>E\<close> is the size of a head.
\<close>

definition attn_bias :: "nat \<Rightarrow> nat \<Rightarrow> real \<Rightarrow> real option" where
  "attn_bias i j s = (if j \<le> i then Some s else None)"

definition scaled_dot_product_attention ::
  "nat \<Rightarrow> mat \<Rightarrow> mat \<Rightarrow> mat \<Rightarrow> real \<Rightarrow> tape \<Rightarrow> mat" where
  "scaled_dot_product_attention E q k v dropout_p tape =
     (let L = length q; S = length k;
          scale_factor = 1 / sqrt (real E);
          attn_weight = map (\<lambda>i. softmax (map (\<lambda>j. attn_bias i j (dot (q ! i) (k ! j) * scale_factor))
                                                 [0..<S])) [0..<L];
          attn_weight = dropout_mat dropout_p True tape attn_weight
      in map (\<lambda>i. map (\<lambda>c. \<Sum>j\<leftarrow>[0..<S]. attn_weight ! i ! j * (v ! j ! c)) [0..<E]) [0..<L])"

text \<open>
  \<^verbatim>\<open>MultiHeadAttention\<close>.  The three projections have no bias.  The registered buffer
  \<^verbatim>\<open>tril\<close> is not read by \<^verbatim>\<open>forward\<close>, which passes \<^verbatim>\<open>is_causal=True\<close> instead.
\<close>

record attention =
  att_total_head_size :: nat
  att_head_size :: nat
  att_num_heads :: nat
  att_dropout_rate :: real
  att_key :: nn_linear
  att_query :: nn_linear
  att_value :: nn_linear
  att_proj :: nn_linear

text \<open>
  \<^verbatim>\<open>view(B,T,n,h).transpose(1,2)\<close>: head \<open>hx\<close> owns the features \<open>hx*h ..< (hx+1)*h\<close> of
  every position.
\<close>

definition head_of :: "nat \<Rightarrow> nat \<Rightarrow> mat \<Rightarrow> mat" where
  "head_of h hx x = map (\<lambda>row. take h (drop (hx * h) row)) x"

text \<open>
  \<^verbatim>\<open>MultiHeadAttention.forward\<close> on one batch element \<open>x\<close> of shape \<open>(T, C)\<close>.  The heads'
  outputs are put side by side again by \<^verbatim>\<open>transpose(1,2).contiguous().view(B,T,H)\<close>.
\<close>

definition mha_forward :: "attention \<Rightarrow> bool \<Rightarrow> tape \<Rightarrow> mat \<Rightarrow> mat" where
  "mha_forward a train tape x =
     (let T = length x;
          k = map (linear_row (att_key a)) x;
          q = map (linear_row (att_query a)) x;
          v = map (linear_row (att_value a)) x;
          h = att_head_size a;
          out = map (\<lambda>hx. scaled_dot_product_attention h (head_of h hx q) (head_of h hx k)
                             (head_of h hx v) (if train then att_dropout_rate a else 0)
                             (sub (sub tape 0) hx))
                    [0..<att_num_heads a];
          out = map (\<lambda>t. concat (map (\<lambda>hx. out ! hx ! t) [0..<att_num_heads a])) [0..<T];
          out = map (linear_row (att_proj a)) out
      in dropout_mat (att_dropout_rate a) train (sub tape 1) out)"

section \<open>Feed-forward layer and transformer block\<close>

record feed_forward =
  ff_fc1 :: nn_linear
  ff_fc2 :: nn_linear
  ff_dropout_rate :: real

definition relu :: "real \<Rightarrow> real" where
  "relu x = max 0 x"

definition ff_forward :: "feed_forward \<Rightarrow> bool \<Rightarrow> tape \<Rightarrow> mat \<Rightarrow> mat" where
  "ff_forward f train tape x =
     dropout_mat (ff_dropout_rate f) train tape
       (map (\<lambda>row. linear_row (ff_fc2 f) (map relu (linear_row (ff_fc1 f) row))) x)"

record block =
  blk_sa :: attention
  blk_ff :: feed_forward
  blk_ln1 :: nn_layer_norm
  blk_ln2 :: nn_layer_norm

definition mat_add :: "mat \<Rightarrow> mat \<Rightarrow> mat" where
  "mat_add x y = map2 (map2 (+)) x y"

definition block_forward :: "block \<Rightarrow> bool \<Rightarrow> tape \<Rightarrow> mat \<Rightarrow> mat" where
  "block_forward b train tape x =
     (let x = mat_add x (mha_forward (blk_sa b) train (sub tape 0) (map (layer_norm_row (blk_ln1 b)) x));
          x = mat_add x (ff_forward (blk_ff b) train (sub tape 1) (map (layer_norm_row (blk_ln2 b)) x))
      in x)"

text \<open>\<^verbatim>\<open>nn.Sequential\<close> of the blocks: one after the other; block \<open>i\<close> reads the tape below \<open>i\<close>.\<close>

fun blocks_forward :: "block list \<Rightarrow> nat \<Rightarrow> bool \<Rightarrow> tape \<Rightarrow> mat \<Rightarrow> mat" where
  "blocks_forward [] i train tape x = x"
| "blocks_forward (b # bs) i train tape x =
     blocks_forward bs (Suc i) train tape (block_forward b train (sub tape i) x)"

section \<open>Language model\<close>

text \<open>
  \<^verbatim>\<open>TransformerLanguageModel\<close>: the arguments of the constructor, the parameters it
  creates, and the mode flag of \<^verbatim>\<open>nn.Module\<close>.
\<close>

record config =
  m_vocab_size :: nat
  m_block_size :: nat
  m_embedding_dim :: nat
  m_head_size :: nat
  m_num_heads :: nat
  m_num_blocks :: nat
  m_dropout_rate :: real

record model =
  cfg :: config
  token_embedding :: mat
  pos_embedding :: mat
  blocks :: "block list"
  ln_f :: nn_layer_norm
  lm_head :: nn_linear
  training :: bool

text \<open>
  The shapes that the constructors give the parameters (training changes the numbers, not
  the shapes).  Source lines 202 to 211 for the attention layer, with the assertion of line
  192 and the head size of line 197; lines 262 to 264 for the feed-forward layer; lines
  277 to 280 for a block, which passes the model's \<open>head_size\<close> as the total head size of
  its attention layer; lines 307 to 318 for the model, where \<^verbatim>\<open>lm_head\<close> is
  \<^verbatim>\<open>nn.Linear(head_size, vocab_size)\<close>.  A model has at least one symbol and a context
  of at least one position.
\<close>

definition linear_ok :: "nat \<Rightarrow> nat \<Rightarrow> bool \<Rightarrow> nn_linear \<Rightarrow> bool" where
  "linear_ok n_in n_out with_bias l \<longleftrightarrow>
     in_features l = n_in \<and> out_features l = n_out \<and> length (lin_weight l) = n_out
     \<and> list_all (\<lambda>w. length w = n_in) (lin_weight l)
     \<and> (case lin_bias l of None \<Rightarrow> \<not> with_bias | Some b \<Rightarrow> with_bias \<and> length b = n_out)"

definition layer_norm_ok :: "nat \<Rightarrow> nn_layer_norm \<Rightarrow> bool" where
  "layer_norm_ok n nrm \<longleftrightarrow> length (ln_weight nrm) = n \<and> length (ln_bias nrm) = n"

definition attention_ok :: "config \<Rightarrow> attention \<Rightarrow> bool" where
  "attention_ok c a \<longleftrightarrow>
     0 < m_num_heads c \<and> m_head_size c mod m_num_heads c = 0
     \<and> att_total_head_size a = m_head_size c
     \<and> att_head_size a = m_head_size c div m_num_heads c
     \<and> att_num_heads a = m_num_heads c
     \<and> att_dropout_rate a = m_dropout_rate c
     \<and> linear_ok (m_embedding_dim c) (m_head_size c) False (att_key a)
     \<and> linear_ok (m_embedding_dim c) (m_head_size c) False (att_query a)
     \<and> linear_ok (m_embedding_dim c) (m_head_size c) False (att_value a)
     \<and> linear_ok (m_head_size c) (m_embedding_dim c) True (att_proj a)"

definition feed_forward_ok :: "config \<Rightarrow> feed_forward \<Rightarrow> bool" where
  "feed_forward_ok c f \<longleftrightarrow>
     linear_ok (m_embedding_dim c) (4 * m_embedding_dim c) True (ff_fc1 f)
     \<and> linear_ok (4 * m_embedding_dim c) (m_embedding_dim c) True (ff_fc2 f)
     \<and> ff_dropout_rate f = m_dropout_rate c"

definition block_ok :: "config \<Rightarrow> block \<Rightarrow> bool" where
  "block_ok c b \<longleftrightarrow>
     attention_ok c (blk_sa b) \<and> feed_forward_ok c (blk_ff b)
     \<and> layer_norm_ok (m_embedding_dim c) (blk_ln1 b) \<and> layer_norm_ok (m_embedding_dim c) (blk_ln2 b)"

definition model_ok :: "model \<Rightarrow> bool" where
  "model_ok m \<longleftrightarrow>
     0 < m_vocab_size (cfg m) \<and> 0 < m_block_size (cfg m)
     \<and> length (token_embedding m) = m_vocab_size (cfg m)
     \<and> list_all (\<lambda>r. length r = m_embedding_dim (cfg m)) (token_embedding m)
     \<and> length (pos_embedding m) = m_block_size (cfg m)
     \<and> list_all (\<lambda>r. length r = m_embedding_dim (cfg m)) (pos_embedding m)
     \<and> length (blocks m) = m_num_blocks (cfg m)
     \<and> list_all (block_ok (cfg m)) (blocks m)
     \<and> layer_norm_ok (m_embedding_dim (cfg m)) (ln_f m)
     \<and> linear_ok (m_head_size (cfg m)) (m_vocab_size (cfg m)) True (lm_head m)"

text \<open>
  \<^verbatim>\<open>nn.Embedding\<close>: a row of the table for each index; an index outside the table raises
  IndexError.
\<close>

definition embedding :: "mat \<Rightarrow> int \<Rightarrow> error + vec" where
  "embedding w i = (if 0 \<le> i \<and> nat i < length w then Inr (w ! nat i) else Inl IndexError)"

definition embedding_seq :: "mat \<Rightarrow> int list \<Rightarrow> error + mat" where
  "embedding_seq w ids = collect (map (embedding w) ids)"

text \<open>
  \<^verbatim>\<open>F.cross_entropy(logits, targets, ignore_index=-1)\<close> on the flattened batch: the mean of
  the negative log-likelihoods of the targets that are not \<open>-1\<close>.  A target that is neither
  \<open>-1\<close> nor a class raises IndexError; when every target is ignored the mean is \<open>0/0\<close>,
  not a number.
\<close>

datatype loss_value = NaN | Loss real

definition nll :: "vec \<Rightarrow> nat \<Rightarrow> real" where
  "nll row t = - (row ! t - ln (sum_list (map exp row)))"

definition cross_entropy :: "mat \<Rightarrow> int list \<Rightarrow> error + loss_value" where
  "cross_entropy logits targets =
     (if length logits \<noteq> length targets then Inl ValueError
      else if \<exists>(row, t)\<in>set (zip logits targets). t \<noteq> - 1 \<and> \<not> (0 \<le> t \<and> nat t < length row)
      then Inl IndexError
      else let kept = filter (\<lambda>(row, t). t \<noteq> - 1) (zip logits targets)
           in if kept = [] then Inr NaN
              else Inr (Loss (sum_list (map (\<lambda>(row, t). nll row (nat t)) kept) / real (length kept))))"

text \<open>
  The logits that \<^verbatim>\<open>forward\<close> returns: of shape \<open>(B, T, vocab_size)\<close> without targets; with
  targets the variable has been rebound to the view of shape \<open>(B*T, vocab_size)\<close> (source
  line 341).
\<close>

datatype logits = Logits3 "real list list list" | Logits2 "real list list"

text \<open>
  \<^verbatim>\<open>TransformerLanguageModel.forward(idx, targets=None)\<close>.  The token embedding raises on an
  id outside the table, the position embedding on a position outside it, that is when
  \<open>T\<close> exceeds the block size.  The layers inside a block are built from the same
  \<open>embedding_dim\<close> and \<open>head_size\<close> and fit each other by construction.  \<^verbatim>\<open>lm_head\<close> is applied
  to the output of \<^verbatim>\<open>ln_f\<close>, whose last dimension is \<open>embedding_dim\<close>; a linear layer raises
  RuntimeError when that differs from its \<open>in_features\<close>.  \<^verbatim>\<open>targets.view(B*T)\<close> raises
  RuntimeError unless the targets hold \<open>B*T\<close> entries.
\<close>

definition forward ::
  "model \<Rightarrow> tape \<Rightarrow> itensor \<Rightarrow> itensor option \<Rightarrow> error + (logits \<times> loss_value option)" where
  "forward m tape idx targets =
     (let B = length (irows idx); T = ncols idx
      in case collect (map (embedding_seq (token_embedding m)) (irows idx)) of
           Inl e \<Rightarrow> Inl e
         | Inr token_embeds \<Rightarrow>
         (case embedding_seq (pos_embedding m) (map int [0..<T]) of
           Inl e \<Rightarrow> Inl e
         | Inr pos_embeds \<Rightarrow>
            let x = map (\<lambda>tok. mat_add tok pos_embeds) token_embeds;
                x = map (\<lambda>(b, xb). blocks_forward (blocks m) 0 (training m) (sub tape b) xb)
                        (enumerate 0 x);
                x = map (map (layer_norm_row (ln_f m))) x
            in if m_embedding_dim (cfg m) \<noteq> in_features (lm_head m) then Inl RuntimeError
               else let logits = map (map (linear_row (lm_head m))) x
                    in case targets of
                         None \<Rightarrow> Inr (Logits3 logits, None)
                       | Some tg \<Rightarrow>
                           let logits = concat logits;
                               flat = concat (irows tg)
                           in if length flat \<noteq> B * T then Inl RuntimeError
                              else (case cross_entropy logits flat of
                                      Inl e \<Rightarrow> Inl e
                                    | Inr loss \<Rightarrow> Inr (Logits2 logits, Some loss))))"

section \<open>Generation\<close>

text \<open>
  \<^verbatim>\<open>idx[:, -block_size:]\<close>: the last \<open>block_size\<close> columns, all of them when there are
  fewer.  For \<open>block_size = 0\<close> the slice is \<^verbatim>\<open>idx[:, 0:]\<close>, the whole tensor.
\<close>

definition crop :: "nat \<Rightarrow> itensor \<Rightarrow> itensor" where
  "crop k idx =
     (if k = 0 then idx
      else \<lparr>ncols = min (ncols idx) k, irows = map (\<lambda>r. drop (length r - k) r) (irows idx)\<rparr>)"

text \<open>
  \<^verbatim>\<open>logits[:, -1, :]\<close>: the last time step of every batch element.  Indexing a dimension of
  size 0 raises IndexError, and so do three indices into the two-dimensional view.
\<close>

definition last_step :: "nat \<Rightarrow> logits \<Rightarrow> error + mat" where
  "last_step T lg =
     (case lg of
        Logits2 _ \<Rightarrow> Inl IndexError
      | Logits3 l \<Rightarrow> if T = 0 then Inl IndexError else Inr (map last l))"

text \<open>
  \<^verbatim>\<open>torch.multinomial(probs, num_samples=1)\<close>: one category per row, drawn by inversion
  from the uniform number of the row; the result is below the number of categories.
  RuntimeError when there is no category, when a probability is negative, or when a row
  sums to nothing.
\<close>

fun pick :: "real list \<Rightarrow> real \<Rightarrow> nat" where
  "pick [] u = 0"
| "pick [p] u = 0"
| "pick (p # ps) u = (if u < p then 0 else Suc (pick ps (u - p)))"

definition multinomial :: "mat \<Rightarrow> nat \<Rightarrow> tape \<Rightarrow> error + int list" where
  "multinomial probs V tape =
     (if V = 0 \<or> (\<exists>row\<in>set probs. (\<exists>p\<in>set row. p < 0) \<or> sum_list row \<le> 0) then Inl RuntimeError
      else Inr (map (\<lambda>(b, row). int (pick row (tape [b] * sum_list row))) (enumerate 0 probs)))"

text \<open>\<^verbatim>\<open>torch.cat((idx, idx_next), dim=1)\<close> with \<open>idx_next\<close> of shape \<open>(B, 1)\<close>.\<close>

definition cat_next :: "itensor \<Rightarrow> int list \<Rightarrow> itensor" where
  "cat_next idx idx_next =
     \<lparr>ncols = ncols idx + 1, irows = map2 (\<lambda>r t. r @ [t]) (irows idx) idx_next\<rparr>"

text \<open>
  The loop of \<^verbatim>\<open>generate\<close>: \<open>n\<close> rounds are left, \<open>k\<close> rounds are done.  Nothing in the
  body looks at the token that was sampled.
\<close>

fun generate_loop :: "nat \<Rightarrow> model \<Rightarrow> tape \<Rightarrow> nat \<Rightarrow> itensor \<Rightarrow> error + itensor" where
  "generate_loop 0 m tape k idx = Inr idx"
| "generate_loop (Suc n) m tape k idx =
     (let idx_crop = crop (m_block_size (cfg m)) idx
      in case forward m (sub (sub tape k) 0) idx_crop None of
           Inl e \<Rightarrow> Inl e
         | Inr (logits, _) \<Rightarrow>
             (case last_step (ncols idx_crop) logits of
                Inl e \<Rightarrow> Inl e
              | Inr logits \<Rightarrow>
                  let probs = map (\<lambda>row. softmax (map Some row)) logits
                  in case multinomial probs (m_vocab_size (cfg m)) (sub (sub tape k) 1) of
                       Inl e \<Rightarrow> Inl e
                     | Inr idx_next \<Rightarrow> generate_loop n m tape (Suc k) (cat_next idx idx_next)))"

text \<open>
  \<^verbatim>\<open>generate(idx, max_new_tokens)\<close>: \<^verbatim>\<open>self.eval()\<close>, the loop, \<^verbatim>\<open>self.train()\<close>.  The result
  is paired with the model as the call leaves it: an exception of the loop leaves it in
  eval mode, since \<^verbatim>\<open>self.train()\<close> is not reached.
\<close>

definition generate :: "model \<Rightarrow> tape \<Rightarrow> itensor \<Rightarrow> nat \<Rightarrow> (error + itensor) \<times> model" where
  "generate m tape idx max_new_tokens =
     (let m = m\<lparr>training := False\<rparr>
      in case generate_loop max_new_tokens m tape 0 idx of
           Inl e \<Rightarrow> (Inl e, m)
         | Inr idx \<Rightarrow> (Inr idx, m\<lparr>training := True\<rparr>))"

section \<open>Well-formed inputs and auxiliary notions for the proofs about the model\<close>

text \<open>
  A token id is in range for a table of \<open>n\<close> rows; \<open>ids_ok V idx\<close> says that every id of
  the batch is a class of a vocabulary of \<open>V\<close> symbols, and \<open>targets_ok V n targets\<close> that
  the targets, when given, hold \<open>n\<close> entries, each the ignore index or a class.
\<close>

definition id_ok :: "nat \<Rightarrow> int \<Rightarrow> bool" where
  "id_ok n i \<longleftrightarrow> 0 \<le> i \<and> i < int n"

definition ids_ok :: "nat \<Rightarrow> itensor \<Rightarrow> bool" where
  "ids_ok V idx = list_all (list_all (id_ok V)) (irows idx)"

definition targets_ok :: "nat \<Rightarrow> nat \<Rightarrow> itensor option \<Rightarrow> bool" where
  "targets_ok V n targets =
     (case targets of
        None \<Rightarrow> True
      | Some tg \<Rightarrow> length (concat (irows tg)) = n
                   \<and> list_all (\<lambda>t. t = - 1 \<or> id_ok V t) (concat (irows tg)))"

text \<open>
  The values that \<^verbatim>\<open>forward\<close> computes when its lookups succeed: the rows of the
  embedding tables, the output of \<^verbatim>\<open>ln_f\<close>, and the output of \<^verbatim>\<open>lm_head\<close>.
\<close>

definition lookup :: "mat \<Rightarrow> int list \<Rightarrow> mat" where
  "lookup w ids = map (\<lambda>i. w ! nat i) ids"

definition hidden :: "model \<Rightarrow> tape \<Rightarrow> itensor \<Rightarrow> mat list" where
  "hidden m tape idx =
     map (map (layer_norm_row (ln_f m)))
       (map (\<lambda>(b, xb). blocks_forward (blocks m) 0 (training m) (sub tape b) xb)
          (enumerate 0
             (map (\<lambda>tok. mat_add tok (take (ncols idx) (pos_embedding m)))
                (map (lookup (token_embedding m)) (irows idx)))))"

definition logits3 :: "model \<Rightarrow> tape \<Rightarrow> itensor \<Rightarrow> mat list" where
  "logits3 m tape idx = map (map (linear_row (lm_head m))) (hidden m tape idx)"

text \<open>
  A small model with the shapes of the constructor, for concrete runs: two symbols, a
  context of two positions, embeddings of width two, one block with two heads, and
  \<open>head_size = h\<close>.
\<close>

definition small :: "nat \<Rightarrow> model" where
  "small h =
     (let c = \<lparr>m_vocab_size = 2, m_block_size = 2, m_embedding_dim = 2, m_head_size = h,
               m_num_heads = 2, m_num_blocks = 1, m_dropout_rate = 1 / 5\<rparr>;
          inp = \<lambda>v. \<lparr>in_features = 2, out_features = h, lin_weight = replicate h [v, 1],
                      lin_bias = None\<rparr>;
          nrm = \<lparr>ln_weight = [1, 1], ln_bias = [0, 0], ln_eps = 1 / 100000\<rparr>
      in \<lparr>cfg = c,
          token_embedding = [[1, 0], [0, 1]],
          pos_embedding = [[0, 0], [1, 1]],
          blocks =
            [\<lparr>blk_sa = \<lparr>att_total_head_size = h, att_head_size = h div 2, att_num_heads = 2,
                         att_dropout_rate = 1 / 5,
                         att_key = inp 1, att_query = inp 2, att_value = inp 3,
                         att_proj = \<lparr>in_features = h, out_features = 2,
                                      lin_weight = replicate 2 (replicate h 1),
                                      lin_bias = Some [0, 0]\<rparr>\<rparr>,
              blk_ff = \<lparr>ff_fc1 = \<lparr>in_features = 2, out_features = 8,
                                    lin_weight = replicate 8 [1, - 1],
                                    lin_bias = Some (replicate 8 0)\<rparr>,
                         ff_fc2 = \<lparr>in_features = 8, out_features = 2,
                                    lin_weight = replicate 2 (replicate 8 1),
                                    lin_bias = Some [0, 0]\<rparr>,
                         ff_dropout_rate = 1 / 5\<rparr>,
              blk_ln1 = nrm, blk_ln2 = nrm\<rparr>],
          ln_f = nrm,
          lm_head = \<lparr>in_features = h, out_features = 2, lin_weight = replicate 2 (replicate h 1),
                      lin_bias = Some [0, 0]\<rparr>,
          training = True\<rparr>)"

section \<open>Auxiliary notions for the proof of causality\<close>

text \<open>The output of one head at position \<open>i\<close>, written over the keys \<open>0..i\<close> only.\<close>

definition attend :: "nat \<Rightarrow> nat \<Rightarrow> (nat \<Rightarrow> vec) \<Rightarrow> (nat \<Rightarrow> vec) \<Rightarrow> vec \<Rightarrow> vec" where
  "attend E i k v qi =
     map (\<lambda>c. \<Sum>j\<leftarrow>[0..<Suc i].
                 exp (dot qi (k j) * (1 / sqrt (real E)))
                   / (\<Sum>j'\<leftarrow>[0..<Suc i]. exp (dot qi (k j') * (1 / sqrt (real E)))) * (v j ! c))
         [0..<E]"

text \<open>The logits of position \<open>t\<close> of batch element \<open>b\<close>, in either shape.\<close>

definition logits_at :: "nat \<Rightarrow> logits \<Rightarrow> nat \<Rightarrow> nat \<Rightarrow> vec" where
  "logits_at T lg b t = (case lg of Logits3 l \<Rightarrow> l ! b ! t | Logits2 l \<Rightarrow> l ! (b * T + t))"
section \<open>Facts about the vocabulary\<close>

lemma vocab_sorted_list:
  "vocab = [''+'', ''0'', ''1'', ''10''] @ chars ''23456789''
            @ [''<END>'', ''<PAD>'', ''<START>'', ''='']"
  unfolding vocab_def by code_simp



lemma vocab_size_16: "vocab_size = 16"
  by (simp add: vocab_size_def vocab_sorted_list chars_def)

lemma distinct_vocab: "distinct vocab"
  unfolding vocab_sorted_list chars_def by simp

lemma fold_upd_notin:
  "\<forall>i\<in>set is. k i \<noteq> s \<Longrightarrow> fold (\<lambda>i m. m(k i \<mapsto> v i)) is m0 s = m0 s"
  by (induction "is" arbitrary: m0) auto

lemma fold_upd_inj:
  "inj_on k (set is) \<Longrightarrow> distinct is \<Longrightarrow> j \<in> set is \<Longrightarrow>
   fold (\<lambda>i m. m(k i \<mapsto> v i)) is m0 (k j) = Some (v j)"
proof (induction "is" arbitrary: m0)
  case Nil then show ?case by simp
next
  case (Cons a "is")
  show ?case
  proof (cases "j = a")
    case True
    with Cons.prems have "\<forall>i\<in>set is. k i \<noteq> k a" by (auto simp: inj_on_def)
    then have "fold (\<lambda>i m. m(k i \<mapsto> v i)) is (m0(k a \<mapsto> v a)) (k a) = (m0(k a \<mapsto> v a)) (k a)"
      by (rule fold_upd_notin)
    moreover have "(m0(k a \<mapsto> v a)) (k a) = Some (v a)" by simp
    ultimately show ?thesis using True by (simp del: fun_upd_apply)
  next
    case False
    with Cons show ?thesis by (auto simp: inj_on_def)
  qed
qed

lemma ctoi_Some_iff: "ctoi s = Some i \<longleftrightarrow> (0 \<le> i \<and> nat i < vocab_size \<and> vocab ! nat i = s)"
proof (cases "s \<in> set vocab")
  case False
  then have "\<forall>i\<in>set [0..<vocab_size]. vocab ! i \<noteq> s" by (auto simp: vocab_size_def)
  then have "ctoi s = None" unfolding ctoi_def by (simp add: fold_upd_notin)
  with False show ?thesis by (auto simp: vocab_size_def)
next
  case True
  then obtain j where j: "j < vocab_size" "vocab ! j = s"
    by (auto simp: in_set_conv_nth vocab_size_def)
  have inj: "inj_on (\<lambda>i. vocab ! i) (set [0..<vocab_size])"
    using distinct_vocab by (auto simp: inj_on_def vocab_size_def nth_eq_iff_index_eq)
  have "ctoi (vocab ! j) = Some (int j)"
    unfolding ctoi_def using j(1) by (intro fold_upd_inj[OF inj]) auto
  then have "ctoi s = Some (int j)" using j by simp
  moreover have "vocab ! nat i = s \<Longrightarrow> nat i < vocab_size \<Longrightarrow> nat i = j"
    using j nth_eq_iff_index_eq[OF distinct_vocab, of "nat i" j] by (simp add: vocab_size_def)
  ultimately show ?thesis using j by auto
qed

lemma itoc_Some_iff: "itoc i = Some s \<longleftrightarrow> (0 \<le> i \<and> nat i < vocab_size \<and> vocab ! nat i = s)"
proof (cases "0 \<le> i \<and> nat i < vocab_size")
  case False
  then have "\<forall>j\<in>set [0..<vocab_size]. int j \<noteq> i" by auto
  then have "itoc i = None" unfolding itoc_def by (simp add: fold_upd_notin)
  with False show ?thesis by auto
next
  case True
  have inj: "inj_on int (set [0..<vocab_size])" by (simp add: inj_on_def)
  have "itoc (int (nat i)) = Some (vocab ! nat i)"
    unfolding itoc_def using True by (intro fold_upd_inj[OF inj]) auto
  with True show ?thesis by auto
qed


lemma ctoi_nonneg: "ctoi s = Some i \<Longrightarrow> 0 \<le> i \<and> i < 16"
  by (auto simp: ctoi_Some_iff vocab_size_16)

lemma ctoi_in_vocab: "s \<in> set vocab \<Longrightarrow> \<exists>i. ctoi s = Some i"
  by (auto simp: ctoi_Some_iff in_set_conv_nth vocab_size_def intro: exI[of _ "int _"])

lemma ctoi_None_iff: "ctoi s = None \<longleftrightarrow> s \<notin> set vocab"
proof
  assume "ctoi s = None" then show "s \<notin> set vocab" using ctoi_in_vocab by fastforce
next
  assume "s \<notin> set vocab"
  then have "\<And>i. ctoi s \<noteq> Some i" by (auto simp: ctoi_Some_iff vocab_size_def)
  then show "ctoi s = None" by (cases "ctoi s") auto
qed

lemma encode_Inr_iff:
  "encode s = Inr r \<longleftrightarrow> set s \<subseteq> set vocab \<and> r = map (\<lambda>c. the (ctoi c)) s"
proof (induction s arbitrary: r)
  case Nil then show ?case by auto
next
  case (Cons c s)
  show ?case
  proof (cases "ctoi c")
    case None
    then have "c \<notin> set vocab" by (simp add: ctoi_None_iff)
    with None show ?thesis by auto
  next
    case (Some i)
    then have "c \<in> set vocab" using ctoi_None_iff[of c] by auto
    then show ?thesis using Some Cons.IH by (cases "encode s") auto
  qed
qed

lemma encode_Inl: "encode s = Inl e \<Longrightarrow> e = KeyError"
  by (induction s arbitrary: e) (auto split: option.splits sum.splits)

lemma encode_absent: "c \<in> set s \<Longrightarrow> c \<notin> set vocab \<Longrightarrow> encode s = Inl KeyError"
proof -
  assume a: "c \<in> set s" "c \<notin> set vocab"
  then have "\<not> set s \<subseteq> set vocab" by auto
  then have "\<And>r. encode s \<noteq> Inr r" by (simp add: encode_Inr_iff)
  then obtain e where "encode s = Inl e" by (cases "encode s") auto
  then show ?thesis using encode_Inl by simp
qed

text \<open>
  Claim C4, as stated: the vocabulary is the 15-symbol set of the digits, \<open>+\<close>, \<open>=\<close> and
  the three special tokens.  The list literal of the notebook also holds the two-character
  symbol \<open>10\<close>, so the vocabulary has 16 symbols.
\<close>

theorem vocab_fifteen_counterexample:
  "\<not> (set vocab = set (chars ''0123456789'') \<union> {''+'', ''='', ''<START>'', ''<END>'', ''<PAD>''}
      \<and> vocab_size = 15)"
  by (simp add: vocab_size_16)

text \<open>
  Claim C4, amended: the vocabulary is the 16-symbol set of the digits, \<open>10\<close>, \<open>+\<close>,
  \<open>=\<close> and the three special tokens, without repetition; the ids are exactly
  \<open>0, \<dots>, vocab_size - 1\<close>, and \<open>ctoi\<close> and \<open>itoc\<close> are inverse to each other.  Both
  tables are constants: no function of the development returns a changed table.
\<close>

theorem vocab_bijection:
  "set vocab = set (chars ''0123456789'') \<union> {''10'', ''+'', ''='', ''<START>'', ''<END>'', ''<PAD>''}
   \<and> vocab_size = 16 \<and> distinct vocab
   \<and> dom ctoi = set vocab \<and> ran ctoi = {i. 0 \<le> i \<and> i < int vocab_size}
   \<and> dom itoc = {i. 0 \<le> i \<and> i < int vocab_size} \<and> ran itoc = set vocab
   \<and> (\<forall>s i. ctoi s = Some i \<longleftrightarrow> itoc i = Some s)"
proof -
  have 1: "set vocab = set (chars ''0123456789'')
                \<union> {''10'', ''+'', ''='', ''<START>'', ''<END>'', ''<PAD>''}"
    unfolding vocab_sorted_list chars_def by auto
  have 2: "dom ctoi = set vocab"
    using ctoi_None_iff by (auto simp: dom_def)
  have 3: "ran ctoi = {i. 0 \<le> i \<and> i < int vocab_size}"
  proof (rule set_eqI)
    fix i
    have "i \<in> ran ctoi \<longleftrightarrow> (\<exists>s. ctoi s = Some i)" by (auto simp: ran_def)
    also have "\<dots> \<longleftrightarrow> 0 \<le> i \<and> nat i < vocab_size" by (auto simp: ctoi_Some_iff)
    finally show "i \<in> ran ctoi \<longleftrightarrow> i \<in> {i. 0 \<le> i \<and> i < int vocab_size}" by auto
  qed
  have 4: "dom itoc = {i. 0 \<le> i \<and> i < int vocab_size}"
  proof (rule set_eqI)
    fix i
    have "i \<in> dom itoc \<longleftrightarrow> (\<exists>s. itoc i = Some s)" by (auto simp: dom_def)
    also have "\<dots> \<longleftrightarrow> 0 \<le> i \<and> nat i < vocab_size" by (auto simp: itoc_Some_iff)
    finally show "i \<in> dom itoc \<longleftrightarrow> i \<in> {i. 0 \<le> i \<and> i < int vocab_size}" by auto
  qed
  have 5: "ran itoc = set vocab"
  proof (rule set_eqI)
    fix s
    have "s \<in> ran itoc \<longleftrightarrow> (\<exists>i. itoc i = Some s)" by (auto simp: ran_def)
    also have "\<dots> \<longleftrightarrow> (\<exists>i. ctoi s = Some i)" by (simp add: ctoi_Some_iff itoc_Some_iff)
    also have "\<dots> \<longleftrightarrow> s \<in> set vocab" using ctoi_None_iff[of s] by auto
    finally show "s \<in> ran itoc \<longleftrightarrow> s \<in> set vocab" .
  qed
  have 6: "\<forall>s i. ctoi s = Some i \<longleftrightarrow> itoc i = Some s"
    by (simp add: ctoi_Some_iff itoc_Some_iff)
  show ?thesis using 1 2 3 4 5 6 vocab_size_16 distinct_vocab by blast
qed

text \<open>
  Claim C8: for every symbol \<open>s\<close> of the vocabulary, decoding the encoding of \<open>[s]\<close> gives
  \<open>[s]\<close> back; and encoding a sequence that holds a symbol absent from the vocabulary
  fails, with the KeyError of the dictionary lookup.
\<close>

theorem tokenizer_roundtrip:
  "(s \<in> set vocab \<longrightarrow> (\<exists>ids. encode [s] = Inr ids \<and> decode ids = Inr [s]))
   \<and> (c \<in> set cs \<and> c \<notin> set vocab \<longrightarrow> encode cs = Inl KeyError)"
proof (intro conjI impI)
  assume "s \<in> set vocab"
  then obtain i where i: "ctoi s = Some i" using ctoi_in_vocab by blast
  then have "itoc i = Some s" by (simp add: ctoi_Some_iff itoc_Some_iff)
  with i show "\<exists>ids. encode [s] = Inr ids \<and> decode ids = Inr [s]" by simp
next
  assume "c \<in> set cs \<and> c \<notin> set vocab"
  then show "encode cs = Inl KeyError" using encode_absent by blast
qed

theorem tokenizer_roundtrip_witness:
  "''7'' \<in> set vocab \<and> (\<exists>ids. encode [''7''] = Inr ids \<and> decode ids = Inr [''7''])
   \<and> ''a'' \<in> set [''1'', ''a''] \<and> ''a'' \<notin> set vocab \<and> encode [''1'', ''a''] = Inl KeyError"
  using tokenizer_roundtrip [of "''7''" "''a''" "[''1'', ''a'']"]
  by (simp add: vocab_sorted_list chars_def)


section \<open>Decimal strings\<close>


lemma less_10_cases: "n < 10 \<Longrightarrow> n \<in> set [0..<10]"
  by simp

lemma upt_10: "[0..<10] = [0, 1, 2, 3, 4, 5, 6, 7, 8, 9 :: nat]"
  by (simp add: upt_rec)

lemma digit_char_in: "n < 10 \<Longrightarrow> digit_char n \<in> digits"
  using less_10_cases[of n] unfolding upt_10 by (auto simp: digit_char_def digits_def)

lemma dval_digit_char: "n < 10 \<Longrightarrow> dval (digit_char n) = n"
  using less_10_cases[of n] unfolding upt_10 by (auto simp: digit_char_def dval_def)

lemma sval_snoc: "sval (s @ [c]) = 10 * sval s + dval c"
  by (simp add: sval_def)

lemma sval_single: "sval [c] = dval c"
  by (simp add: sval_def)

lemma str_nat_digits: "set (str_nat n) \<subseteq> digits"
proof (induction n rule: str_nat.induct)
  case (1 n)
  show ?case
  proof (cases "n < 10")
    case True
    then show ?thesis by (subst str_nat.simps) (simp add: digit_char_in)
  next
    case False
    then show ?thesis using 1 by (subst str_nat.simps) (simp add: digit_char_in)
  qed
qed

lemma str_nat_nonempty: "str_nat n \<noteq> []"
  by (subst str_nat.simps) simp

lemma sval_str_nat: "sval (str_nat n) = n"
proof (induction n rule: str_nat.induct)
  case (1 n)
  show ?case
  proof (cases "n < 10")
    case True
    then show ?thesis by (subst str_nat.simps) (simp add: sval_single dval_digit_char)
  next
    case False
    then show ?thesis using 1
      by (subst str_nat.simps) (simp add: sval_snoc dval_digit_char)
  qed
qed

lemma length_str_nat: "n < 10 ^ d \<Longrightarrow> 0 < d \<Longrightarrow> length (str_nat n) \<le> d"
proof (induction n arbitrary: d rule: str_nat.induct)
  case (1 n)
  show ?case
  proof (cases "n < 10")
    case True
    then show ?thesis using "1.prems" by (subst str_nat.simps) simp
  next
    case False
    obtain e where e: "d = Suc e" using "1.prems" by (cases d) auto
    have "e \<noteq> 0" using False "1.prems" e by (cases e) auto
    moreover have "n div 10 < 10 ^ e" using "1.prems" e by (simp add: less_mult_imp_div_less mult.commute)
    ultimately have "length (str_nat (n div 10)) \<le> e" using "1.IH"[of e] False by simp
    then show ?thesis using False e by (subst str_nat.simps) simp
  qed
qed

lemma sval_zeros: "sval (replicate k (CHR ''0'') @ s) = sval s"
  unfolding sval_def by (induction k) (simp_all add: dval_def)

lemma sval_nines: "sval (replicate d (CHR ''9'')) = 10 ^ d - 1"
proof (induction d)
  case 0 then show ?case by (simp add: sval_def)
next
  case (Suc d)
  have "replicate (Suc d) (CHR ''9'') = replicate d (CHR ''9'') @ [CHR ''9'']"
    by (simp add: replicate_append_same)
  then have "sval (replicate (Suc d) (CHR ''9'')) = 10 * (10 ^ d - 1) + 9"
    using Suc by (simp add: sval_snoc dval_def del: replicate_Suc)
  moreover have "(1::nat) \<le> 10 ^ d" by simp
  ultimately show ?case by (simp add: algebra_simps)
qed

text \<open>The operand strings \<open>str(a).zfill(max_digits)\<close> for an operand in range.\<close>

lemma zfill_digits:
  assumes "s \<noteq> []" "set s \<subseteq> digits"
  shows "zfill s w = replicate (w - length s) (CHR ''0'') @ s"
proof -
  obtain c r where s: "s = c # r" using assms(1) by (cases s) auto
  then have "c \<in> digits" using assms(2) by simp
  then have "c \<noteq> CHR ''+'' \<and> c \<noteq> CHR ''-''" by (auto simp: digits_def)
  then show ?thesis using s by (simp add: zfill_def)
qed

lemma zfill_str_int:
  assumes "0 \<le> a"
  shows "zfill (str_int a) w = replicate (w - length (str_nat (nat a))) (CHR ''0'') @ str_nat (nat a)"
  using assms zfill_digits[OF str_nat_nonempty str_nat_digits] by (simp add: str_int_def)

lemma operand_length:
  assumes "0 \<le> a" "a < 10 ^ d" "0 < d"
  shows "length (zfill (str_int a) d) = d"
proof -
  have "nat a < 10 ^ d" using assms by (simp add: nat_less_iff)
  then have "length (str_nat (nat a)) \<le> d" using assms(3) by (rule length_str_nat)
  then show ?thesis using assms(1) by (simp add: zfill_str_int)
qed

lemma operand_digits:
  assumes "0 \<le> a"
  shows "set (zfill (str_int a) d) \<subseteq> digits"
  using assms str_nat_digits[of "nat a"] by (auto simp: zfill_str_int digits_def)

lemma operand_value:
  assumes "0 \<le> a"
  shows "int (sval (zfill (str_int a) d)) = a"
  using assms by (simp add: zfill_str_int sval_zeros sval_str_nat)

lemma operand_not_nines:
  assumes "0 \<le> a" "a < 10 ^ d - 1"
  shows "zfill (str_int a) d \<noteq> replicate d (CHR ''9'')"
proof
  assume "zfill (str_int a) d = replicate d (CHR ''9'')"
  then have "int (sval (zfill (str_int a) d)) = int (10 ^ d - 1)" by (simp add: sval_nines)
  then have "a = int (10 ^ d - 1)" using operand_value[OF assms(1)] by simp
  then show False using assms(2) by (simp add: of_nat_diff)
qed

section \<open>The rows of a batch\<close>
lemma length_chars [simp]: "length (chars s) = length s"
  by (simp add: chars_def)

lemma chars_append [simp]: "chars (s @ t) = chars s @ chars t"
  by (simp add: chars_def)

lemma chars_inj: "chars s = chars t \<Longrightarrow> s = t"
  by (simp add: chars_def inj_on_def list.inj_map_strong)

lemma chars_replicate: "chars (replicate n c) = replicate n [c]"
  by (simp add: chars_def)

lemma digit_symbol_in_vocab: "c \<in> digits \<Longrightarrow> [c] \<in> set vocab"
  by (auto simp: digits_def vocab_sorted_list chars_def)

lemma chars_digits_vocab: "set s \<subseteq> digits \<Longrightarrow> set (chars s) \<subseteq> set vocab"
  by (auto simp: chars_def digit_symbol_in_vocab)

lemma special_in_vocab:
  "''<START>'' \<in> set vocab" "''<END>'' \<in> set vocab" "''<PAD>'' \<in> set vocab"
  "''+'' \<in> set vocab" "''='' \<in> set vocab"
  by (simp_all add: vocab_sorted_list)

lemma ctoi_values:
  "ctoi ''='' = Some 15" "ctoi ''<PAD>'' = Some 13" "ctoi ''9'' = Some 11"
  by (simp_all add: ctoi_Some_iff vocab_size_16 vocab_sorted_list chars_def)

lemma cti_inj: "s \<in> set vocab \<Longrightarrow> t \<in> set vocab \<Longrightarrow> cti s = cti t \<Longrightarrow> s = t"
proof -
  assume a: "s \<in> set vocab" "t \<in> set vocab" "cti s = cti t"
  obtain i where i: "ctoi s = Some i" using a(1) ctoi_in_vocab by blast
  obtain j where j: "ctoi t = Some j" using a(2) ctoi_in_vocab by blast
  have "i = j" using a(3) i j by (simp add: cti_def)
  then show ?thesis using i j by (simp add: ctoi_Some_iff)
qed

lemma cti_nonneg: "s \<in> set vocab \<Longrightarrow> 0 \<le> cti s"
  using ctoi_in_vocab[of s] ctoi_nonneg[of s] by (auto simp: cti_def)

text \<open>The padded problem for operands in range.\<close>

lemma problem_of_shape:
  assumes a: "0 \<le> a" "a < 10 ^ d" and b: "0 \<le> b" "b < 10 ^ d" and d: "0 < d"
  shows "\<exists>A B ans. length A = d \<and> length B = d \<and> length ans = d + 1
           \<and> A = zfill (str_int a) d \<and> B = zfill (str_int b) d
           \<and> set ans \<subseteq> set vocab
           \<and> problem_of bs d bw a b =
               (''<START>'' # chars A @ ''+'' # chars B) @ ''='' #
               (ans @ ''<END>'' # replicate (bs - (3 * d + 4)) ''<PAD>'')"
proof -
  let ?A = "zfill (str_int a) d" and ?B = "zfill (str_int b) d"
  let ?C = "zfill (str_int (a + b)) (d + 1)"
  let ?ans = "if bw then rev (chars ?C) else chars ?C"
  have lA: "length ?A = d" using a d by (rule operand_length)
  have lB: "length ?B = d" using b d by (rule operand_length)
  have "a + b < 10 ^ (d + 1)" using a b by simp
  moreover have "0 \<le> a + b" using a b by simp
  ultimately have lC: "length ?C = d + 1" by (intro operand_length) auto
  have "set (chars ?C) \<subseteq> set vocab"
    using \<open>0 \<le> a + b\<close> by (intro chars_digits_vocab operand_digits)
  then have sa: "set ?ans \<subseteq> set vocab" by auto
  have la: "length ?ans = d + 1" using lC by simp
  have "problem_of bs d bw a b =
          (''<START>'' # chars ?A @ ''+'' # chars ?B) @ ''='' #
          (?ans @ ''<END>'' # replicate (bs - (3 * d + 4)) ''<PAD>'')"
    using lA lB lC by (simp add: problem_of_def Let_def chars_def)
  then show ?thesis using lA lB la sa by blast
qed

lemma problem_of_facts:
  fixes bw :: bool and bs :: nat
  assumes a: "0 \<le> a" "a < 10 ^ d" and b: "0 \<le> b" "b < 10 ^ d" and d: "0 < d"
    and bs: "3 * d + 5 \<le> bs"
  defines "P \<equiv> problem_of bs d bw a b"
  shows "length P = bs + 1" "set P \<subseteq> set vocab" "P ! (2 * d + 2) = ''=''" "P ! bs = ''<PAD>''"
    "take d (drop 1 P) = chars (zfill (str_int a) d)"
    "take d (drop (d + 2) P) = chars (zfill (str_int b) d)"
proof -
  obtain A B ans where s: "length A = d" "length B = d" "length ans = d + 1"
      "A = zfill (str_int a) d" "B = zfill (str_int b) d" "set ans \<subseteq> set vocab"
      "P = (''<START>'' # chars A @ ''+'' # chars B) @ ''='' #
           (ans @ ''<END>'' # replicate (bs - (3 * d + 4)) ''<PAD>'')"
    using problem_of_shape[OF a b d, of bs bw] unfolding P_def by blast
  show "length P = bs + 1" using s(1-3) bs by (simp add: s(7))
  have "set (chars A) \<subseteq> set vocab" "set (chars B) \<subseteq> set vocab"
    using a b s(4,5) by (auto intro!: chars_digits_vocab operand_digits)
  then show "set P \<subseteq> set vocab" using s(6) special_in_vocab by (auto simp: s(7))
  have l: "length (''<START>'' # chars A @ ''+'' # chars B) = 2 * d + 2" using s(1,2) by simp
  show "P ! (2 * d + 2) = ''=''"
    unfolding s(7) using l by (metis nth_append_length)
  define Q where "Q = (''<START>'' # chars A @ ''+'' # chars B) @ ''='' # ans @ [''<END>'']"
  have lQ: "length Q = 3 * d + 5" using s(1-3) by (simp add: Q_def)
  have PQ: "P = Q @ replicate (bs - (3 * d + 4)) ''<PAD>''" by (simp add: s(7) Q_def)
  have "P ! bs = replicate (bs - (3 * d + 4)) ''<PAD>'' ! (bs - (3 * d + 5))"
    unfolding PQ using lQ bs by (simp add: nth_append)
  also have "\<dots> = ''<PAD>''" using bs by simp
  finally show "P ! bs = ''<PAD>''" .
  show "take d (drop 1 P) = chars (zfill (str_int a) d)"
    unfolding s(7) using s(1) s(4) by simp
  show "take d (drop (d + 2) P) = chars (zfill (str_int b) d)"
    unfolding s(7) using s(1,2) s(5) by simp
qed
lemma encode_vocab: "set s \<subseteq> set vocab \<Longrightarrow> encode s = Inr (map cti s)"
  by (simp add: encode_Inr_iff cti_def)

lemma cti_values: "cti ''='' = 15" "cti ''<PAD>'' = 13" "cti ''9'' = 11"
  by (simp_all add: cti_def ctoi_values)

lemma map_cti_nines:
  assumes "set s \<subseteq> digits" "map cti (chars s) = replicate (length s) 11"
  shows "s = replicate (length s) (CHR ''9'')"
proof (rule nth_equalityI)
  show "length s = length (replicate (length s) (CHR ''9''))" by simp
next
  fix i assume i: "i < length s"
  then have "map cti (chars s) ! i = 11" using assms(2) by simp
  then have "cti [s ! i] = cti ''9''" using i by (simp add: chars_def cti_values)
  moreover have "s ! i \<in> digits" using i assms(1) by (auto simp: subset_iff)
  then have "[s ! i] \<in> set vocab" by (rule digit_symbol_in_vocab)
  moreover have "''9'' \<in> set vocab" by (simp add: vocab_sorted_list chars_def)
  ultimately have "[s ! i] = ''9''" by (rule cti_inj[rotated 2])
  then show "s ! i = replicate (length s) (CHR ''9'') ! i" using i by simp
qed

lemma nth_replicate_append_low: "j < n \<Longrightarrow> (replicate n x @ ys) ! j = x"
  by (simp add: nth_append)

lemma nth_replicate_append_high: "n \<le> j \<Longrightarrow> (replicate n x @ ys) ! j = ys ! (j - n)"
  by (simp add: nth_append)

lemma take_drop_map_take:
  "k + d \<le> n \<Longrightarrow> take d (drop k (map f (take n xs))) = map f (take d (drop k xs))"
  by (simp add: take_map drop_map drop_take min_def)

lemma example_ok:
  fixes bw :: bool
  assumes a: "0 \<le> a" "a < 10 ^ d - 1" and b: "0 \<le> b" "b < 10 ^ d - 1" and d: "0 < d"
    and bs: "3 * d + 5 \<le> bs"
  shows "\<exists>inp tgt. example bs d bw a b = Inr (inp, tgt) \<and> row_ok bs d inp tgt \<and> no_nines d inp"
proof -
  define P where "P = problem_of bs d bw a b"
  have a': "a < 10 ^ d" and b': "b < 10 ^ d" using a b by simp_all
  note pf = problem_of_facts[OF a(1) a' b(1) b' d bs, of bw, folded P_def]
  define inp where "inp = map cti (take bs P)"
  define t0 where "t0 = map cti (take bs (drop 1 P))"
  define tgt where "tgt = replicate (min (2 * d + 2) (length t0)) (- 1) @ drop (2 * d + 2) t0"
  have e1: "encode (take bs P) = Inr inp"
    unfolding inp_def using pf(2) by (intro encode_vocab) (auto dest: in_set_takeD)
  have e2: "encode (take bs (drop 1 P)) = Inr t0"
    unfolding t0_def using pf(2) by (intro encode_vocab) (auto dest!: in_set_takeD in_set_dropD)
  have ex: "example bs d bw a b = Inr (inp, tgt)"
    using e1 e2 by (simp add: example_def Let_def tgt_def flip: P_def)
  have li: "length inp = bs" using pf(1) by (simp add: inp_def)
  have lt0: "length t0 = bs" using pf(1) by (simp add: t0_def)
  have lt: "length tgt = bs" using lt0 bs by (simp add: tgt_def)
  have inp_nth: "inp ! k = cti (P ! k)" if "k < bs" for k
    using that pf(1) by (simp add: inp_def)
  have t0_nth: "t0 ! j = cti (P ! (j + 1))" if "j < bs" for j
    using that pf(1) by (simp add: t0_def)
  have "min (2 * d + 2) (length t0) = 2 * d + 2" using lt0 bs by simp
  then have tg: "tgt = replicate (2 * d + 2) (- 1) @ drop (2 * d + 2) t0"
    unfolding tgt_def by (rule arg_cong[where f = "\<lambda>n. replicate n (- 1) @ drop (2 * d + 2) t0"])
  have low: "tgt ! j = - 1" if "j \<le> 2 * d + 1" for j
  proof -
    have "j < 2 * d + 2" using that by simp
    then show ?thesis unfolding tg by (rule nth_replicate_append_low)
  qed
  have high: "tgt ! j = cti (P ! (j + 1))" if "2 * d + 1 < j" "j < bs" for j
  proof -
    have "2 * d + 2 \<le> j" using that by simp
    then have "tgt ! j = drop (2 * d + 2) t0 ! (j - (2 * d + 2))"
      unfolding tg by (rule nth_replicate_append_high)
    also have "\<dots> = t0 ! (2 * d + 2 + (j - (2 * d + 2)))"
    proof (rule nth_drop)
      show "2 * d + 2 \<le> length t0" using lt0 bs by simp
    qed
    also have "\<dots> = t0 ! j" using \<open>2 * d + 2 \<le> j\<close> by (simp only: le_add_diff_inverse)
    finally show ?thesis using t0_nth that by simp
  qed
  have nn: "tgt ! j \<noteq> - 1" if "2 * d + 1 < j" "j < bs" for j
  proof -
    have "P ! (j + 1) \<in> set vocab" using pf(1,2) that by (auto simp: subset_iff)
    then show ?thesis using high[OF that] cti_nonneg by fastforce
  qed
  have eq: "ctoi ''='' = Some (inp ! (2 * d + 2))"
    using inp_nth[of "2 * d + 2"] bs pf(3) by (simp add: ctoi_values cti_values)
  have pad: "ctoi ''<PAD>'' = Some (tgt ! (bs - 1))"
    using high[of "bs - 1"] bs pf(4) by (simp add: ctoi_values cti_values)
  have ok: "row_ok bs d inp tgt"
    unfolding row_ok_def using li lt eq pad low nn high inp_nth by simp
  have A: "take d (drop 1 inp) = map cti (chars (zfill (str_int a) d))"
    unfolding inp_def pf(5)[symmetric] by (rule take_drop_map_take) (use bs in simp)
  have B: "take d (drop (d + 2) inp) = map cti (chars (zfill (str_int b) d))"
    unfolding inp_def pf(6)[symmetric] by (rule take_drop_map_take) (use bs in simp)
  have nA: "map cti (chars (zfill (str_int v) d)) \<noteq> replicate d 11"
    if v: "0 \<le> v" "v < 10 ^ d - 1" for v
  proof
    assume h: "map cti (chars (zfill (str_int v) d)) = replicate d 11"
    have "v < 10 ^ d" using v by simp
    then have l: "length (zfill (str_int v) d) = d" using v(1) d by (intro operand_length)
    have "zfill (str_int v) d = replicate d (CHR ''9'')"
      using map_cti_nines[OF operand_digits[OF v(1), of d]] h l by simp
    then show False using operand_not_nines[OF v] by simp
  qed
  have "no_nines d inp" unfolding no_nines_def A B using nA a b by simp
  with ex ok show ?thesis by blast
qed

lemma randint_pair:
  assumes "randint 0 (10 ^ d - 1) 2 g = Inr (ab, g')"
  shows "0 < d \<and> 0 \<le> ab ! 0 \<and> ab ! 0 < 10 ^ d - 1 \<and> 0 \<le> ab ! 1 \<and> ab ! 1 < 10 ^ d - 1
         \<and> length ab = 2"
proof -
  have h: "\<not> (10 ^ d - 1 \<le> (0::int))" and ab: "ab = map (\<lambda>i. int (g i) mod (10 ^ d - 1)) [0..<2]"
    using assms by (auto simp: randint_def split: if_splits)
  have "0 < d" using h by (cases d) auto
  moreover have "ab = [int (g 0) mod (10 ^ d - 1), int (g 1) mod (10 ^ d - 1)]"
    using ab by (simp add: upt_rec numeral_2_eq_2)
  ultimately show ?thesis using h by simp
qed

lemma randint_succeeds:
  assumes "1 \<le> d" "d \<le> 18"
  shows "\<exists>ab g'. randint 0 (10 ^ d - 1) 2 g = Inr (ab, g')"
proof -
  have "(10::int) ^ d \<le> 10 ^ 18" using assms(2) by (intro power_increasing) auto
  then have "(10::int) ^ d - 1 \<le> 2 ^ 63" by simp
  moreover have "(10::int) ^ 1 \<le> 10 ^ d" using assms(1) by (intro power_increasing) auto
  then have "\<not> ((10::int) ^ d - 1 \<le> 0)" by simp
  ultimately show ?thesis by (simp add: randint_def)
qed

lemma randint_fails:
  assumes "d = 0 \<or> 19 \<le> d"
  shows "randint 0 (10 ^ d - 1) 2 g = Inl ValueError"
proof (cases "d = 0")
  case True then show ?thesis by (simp add: randint_def)
next
  case False
  then have "19 \<le> d" using assms by simp
  then have "(10::int) ^ 19 \<le> 10 ^ d" by (intro power_increasing) auto
  then have "(2::int) ^ 63 < 10 ^ d - 1" by simp
  then show ?thesis by (simp add: randint_def)
qed

lemma batch_loop_rows:
  assumes "batch_loop n bs d bw g = Inr (rs, g')" "3 * d + 5 \<le> bs"
  shows "length rs = n \<and>
         (\<forall>r\<in>set rs. \<exists>a b. 0 \<le> a \<and> a \<le> 10 ^ d - 2 \<and> 0 \<le> b \<and> b \<le> 10 ^ d - 2
              \<and> example bs d bw a b = Inr r \<and> row_ok bs d (fst r) (snd r) \<and> no_nines d (fst r))"
  using assms
proof (induction n arbitrary: g rs)
  case 0
  then show ?case by simp
next
  case (Suc n)
  from Suc.prems(1) obtain ab g1 where r: "randint 0 (10 ^ d - 1) 2 g = Inr (ab, g1)"
    by (auto split: sum.splits)
  from Suc.prems(1) r obtain row where e: "example bs d bw (ab ! 0) (ab ! 1) = Inr row"
    by (auto split: sum.splits)
  from Suc.prems(1) r e obtain rs1 where l: "batch_loop n bs d bw g1 = Inr (rs1, g')"
    and rs: "rs = row # rs1"
    by (auto split: sum.splits)
  note rp = randint_pair[OF r]
  obtain inp tgt where x: "example bs d bw (ab ! 0) (ab ! 1) = Inr (inp, tgt)"
    "row_ok bs d inp tgt" "no_nines d inp"
    using example_ok[of "ab ! 0" d "ab ! 1" bs bw] rp Suc.prems(2) by blast
  have "\<exists>a b. 0 \<le> a \<and> a \<le> 10 ^ d - 2 \<and> 0 \<le> b \<and> b \<le> 10 ^ d - 2
              \<and> example bs d bw a b = Inr row \<and> row_ok bs d (fst row) (snd row) \<and> no_nines d (fst row)"
    using x e rp by (intro exI[of _ "ab ! 0"] exI[of _ "ab ! 1"]) auto
  then show ?case using Suc.IH[OF l Suc.prems(2)] rs by simp
qed

lemma batch_loop_succeeds:
  assumes "1 \<le> d" "d \<le> 18" "3 * d + 5 \<le> bs"
  shows "\<exists>rs g'. batch_loop n bs d bw g = Inr (rs, g')"
proof (induction n arbitrary: g)
  case 0
  then show ?case by simp
next
  case (Suc n)
  obtain ab g1 where r: "randint 0 (10 ^ d - 1) 2 g = Inr (ab, g1)"
    using randint_succeeds[OF assms(1,2)] by blast
  note rp = randint_pair[OF r]
  obtain row where e: "example bs d bw (ab ! 0) (ab ! 1) = Inr row"
    using example_ok[of "ab ! 0" d "ab ! 1" bs bw] rp assms(3) by blast
  obtain rs g' where "batch_loop n bs d bw g1 = Inr (rs, g')" using Suc[of g1] by blast
  then show ?case using r e by simp
qed

lemma example_error: "example bs d bw a b = Inl e \<Longrightarrow> e = KeyError"
  by (auto simp: example_def Let_def split: sum.splits dest: encode_Inl)

lemma randint_error: "randint lo hi n g = Inl e \<Longrightarrow> e = ValueError"
  by (auto simp: randint_def split: if_splits)

lemma batch_loop_error:
  "batch_loop n bs d bw g = Inl e \<Longrightarrow> e = ValueError \<or> e = KeyError"
proof (induction n arbitrary: g)
  case 0
  then show ?case by simp
next
  case (Suc n)
  then show ?case
    by (auto split: sum.splits prod.splits dest: randint_error example_error)
qed

text \<open>
  Claim C5: in every batch that \<open>generate_batch\<close> returns, both tensors have
  \<open>batch_size\<close> rows of \<open>block_size\<close> entries; the input holds the id of \<open>=\<close> at
  index \<open>2*max_digits+2\<close>, which is index \<open>2*max_digits+1\<close> of the target; every target
  entry at an index up to \<open>2*max_digits+1\<close> is the sentinel \<open>-1\<close>, no later entry is, and
  every later entry equals the input entry one position to the right (the last entry, which
  has no input entry to its right, is the id of the padding symbol).  A batch is returned
  for every \<open>max_digits\<close> from 1 to 18, every positive batch size and every block size of
  at least \<open>3*max_digits+7\<close>.
\<close>

theorem generate_batch_targets:
  "(generate_batch block_size batch_size max_digits backward g = Inr (x, y, g') \<longrightarrow>
      length x = batch_size \<and> length y = batch_size \<and>
      (\<forall>i<batch_size.
          length (x ! i) = block_size \<and> length (y ! i) = block_size \<and>
          ctoi ''='' = Some (x ! i ! (2 * max_digits + 2)) \<and>
          (\<forall>j<block_size.
              (j \<le> 2 * max_digits + 1 \<longrightarrow> y ! i ! j = - 1) \<and>
              (2 * max_digits + 1 < j \<longrightarrow>
                 y ! i ! j \<noteq> - 1 \<and> (j + 1 < block_size \<longrightarrow> y ! i ! j = x ! i ! (j + 1)))) \<and>
          ctoi ''<PAD>'' = Some (y ! i ! (block_size - 1))))
   \<and> (1 \<le> max_digits \<and> max_digits \<le> 18 \<and> 1 \<le> batch_size \<and> 3 * max_digits + 7 \<le> block_size \<longrightarrow>
        (\<exists>x y g'. generate_batch block_size batch_size max_digits backward g = Inr (x, y, g')))"
proof (rule conjI; rule impI)
  assume h: "generate_batch block_size batch_size max_digits backward g = Inr (x, y, g')"
  then have bs: "3 * max_digits + 7 \<le> block_size"
    by (auto simp: generate_batch_def Let_def split: if_splits)
  from h bs obtain rs where l: "batch_loop batch_size block_size max_digits backward g = Inr (rs, g')"
    and xy: "x = map fst rs" "y = map snd rs"
    by (auto simp: generate_batch_def Let_def split: if_splits sum.splits)
  have bs5: "3 * max_digits + 5 \<le> block_size" using bs by simp
  have r: "length rs = batch_size" "\<forall>r\<in>set rs. row_ok block_size max_digits (fst r) (snd r)"
    using batch_loop_rows[OF l bs5] by blast+
  have len: "length x = batch_size" "length y = batch_size" using r(1) xy by simp_all
  have "\<forall>i<batch_size.
          length (x ! i) = block_size \<and> length (y ! i) = block_size \<and>
          ctoi ''='' = Some (x ! i ! (2 * max_digits + 2)) \<and>
          (\<forall>j<block_size.
              (j \<le> 2 * max_digits + 1 \<longrightarrow> y ! i ! j = - 1) \<and>
              (2 * max_digits + 1 < j \<longrightarrow>
                 y ! i ! j \<noteq> - 1 \<and> (j + 1 < block_size \<longrightarrow> y ! i ! j = x ! i ! (j + 1)))) \<and>
          ctoi ''<PAD>'' = Some (y ! i ! (block_size - 1))"
  proof (intro allI impI)
    fix i assume i: "i < batch_size"
    then have "row_ok block_size max_digits (fst (rs ! i)) (snd (rs ! i))"
      using r by simp
    then show "length (x ! i) = block_size \<and> length (y ! i) = block_size \<and>
          ctoi ''='' = Some (x ! i ! (2 * max_digits + 2)) \<and>
          (\<forall>j<block_size.
              (j \<le> 2 * max_digits + 1 \<longrightarrow> y ! i ! j = - 1) \<and>
              (2 * max_digits + 1 < j \<longrightarrow>
                 y ! i ! j \<noteq> - 1 \<and> (j + 1 < block_size \<longrightarrow> y ! i ! j = x ! i ! (j + 1)))) \<and>
          ctoi ''<PAD>'' = Some (y ! i ! (block_size - 1))"
      using i r(1) xy unfolding row_ok_def by simp
  qed
  with len show "length x = batch_size \<and> length y = batch_size \<and>
      (\<forall>i<batch_size.
          length (x ! i) = block_size \<and> length (y ! i) = block_size \<and>
          ctoi ''='' = Some (x ! i ! (2 * max_digits + 2)) \<and>
          (\<forall>j<block_size.
              (j \<le> 2 * max_digits + 1 \<longrightarrow> y ! i ! j = - 1) \<and>
              (2 * max_digits + 1 < j \<longrightarrow>
                 y ! i ! j \<noteq> - 1 \<and> (j + 1 < block_size \<longrightarrow> y ! i ! j = x ! i ! (j + 1)))) \<and>
          ctoi ''<PAD>'' = Some (y ! i ! (block_size - 1)))" by blast
next
  assume h: "1 \<le> max_digits \<and> max_digits \<le> 18 \<and> 1 \<le> batch_size \<and> 3 * max_digits + 7 \<le> block_size"
  then obtain rs g' where l: "batch_loop batch_size block_size max_digits backward g = Inr (rs, g')"
    using batch_loop_succeeds[of max_digits block_size batch_size backward g] by auto
  then have "length rs = batch_size" using batch_loop_rows[OF l] h by simp
  then have "rs \<noteq> []" using h by auto
  then show "\<exists>x y g'. generate_batch block_size batch_size max_digits backward g = Inr (x, y, g')"
    using h l by (simp add: generate_batch_def Let_def)
qed

text \<open>
  Claim C6: \<open>generate_batch\<close> fails with the AssertionError of its size check whenever
  \<open>block_size < 3*max_digits+7\<close>, and never fails with it when
  \<open>block_size \<ge> 3*max_digits+7\<close>.
\<close>

theorem generate_batch_block_size:
  "(block_size < 3 * max_digits + 7 \<longrightarrow>
      generate_batch block_size batch_size max_digits backward g = Inl AssertionError)
   \<and> (3 * max_digits + 7 \<le> block_size \<longrightarrow>
      generate_batch block_size batch_size max_digits backward g \<noteq> Inl AssertionError)"
proof (rule conjI; rule impI)
  assume "block_size < 3 * max_digits + 7"
  then show "generate_batch block_size batch_size max_digits backward g = Inl AssertionError"
    by (simp add: generate_batch_def Let_def)
next
  assume h: "3 * max_digits + 7 \<le> block_size"
  show "generate_batch block_size batch_size max_digits backward g \<noteq> Inl AssertionError"
  proof (cases "batch_loop batch_size block_size max_digits backward g")
    case (Inl e)
    then have "e \<noteq> AssertionError" using batch_loop_error by blast
    then show ?thesis using h Inl by (simp add: generate_batch_def Let_def)
  next
    case (Inr p)
    then show ?thesis using h by (cases p) (simp add: generate_batch_def Let_def)
  qed
qed

text \<open>
  Claim C10: the two operands drawn by \<open>randint 0 (10^max_digits - 1) 2\<close> lie in
  \<open>[0, 10^max_digits - 2]\<close>, so neither is the all-nines value \<open>10^max_digits - 1\<close>; every
  row of a returned batch is the example of two operands in that range, and neither operand
  field of the row (the \<open>max_digits\<close> entries after the start token, and those after the
  plus sign) consists of \<open>max_digits\<close> nines.
\<close>

theorem generate_batch_operands:
  "(randint 0 (10 ^ max_digits - 1) 2 g = Inr (ab, gr) \<longrightarrow>
      length ab = 2 \<and> (\<forall>v\<in>set ab. 0 \<le> v \<and> v \<le> 10 ^ max_digits - 2 \<and> v \<noteq> 10 ^ max_digits - 1))
   \<and> (generate_batch block_size batch_size max_digits backward g = Inr (x, y, g') \<longrightarrow>
        (\<forall>i<batch_size.
           (\<exists>a b. 0 \<le> a \<and> a \<le> 10 ^ max_digits - 2 \<and> 0 \<le> b \<and> b \<le> 10 ^ max_digits - 2
                  \<and> example block_size max_digits backward a b = Inr (x ! i, y ! i))
           \<and> take max_digits (drop 1 (x ! i)) \<noteq> replicate max_digits (the (ctoi ''9''))
           \<and> take max_digits (drop (max_digits + 2) (x ! i)) \<noteq> replicate max_digits (the (ctoi ''9''))))"
proof (rule conjI; rule impI)
  assume "randint 0 (10 ^ max_digits - 1) 2 g = Inr (ab, gr)"
  note rp = randint_pair[OF this]
  then have "set ab = {ab ! 0, ab ! 1}"
    by (cases ab; cases "tl ab") auto
  then show "length ab = 2 \<and> (\<forall>v\<in>set ab. 0 \<le> v \<and> v \<le> 10 ^ max_digits - 2 \<and> v \<noteq> 10 ^ max_digits - 1)"
    using rp by auto
next
  assume h: "generate_batch block_size batch_size max_digits backward g = Inr (x, y, g')"
  then have bs: "3 * max_digits + 7 \<le> block_size"
    by (auto simp: generate_batch_def Let_def split: if_splits)
  from h bs obtain rs where l: "batch_loop batch_size block_size max_digits backward g = Inr (rs, g')"
    and xy: "x = map fst rs" "y = map snd rs"
    by (auto simp: generate_batch_def Let_def split: if_splits sum.splits)
  have bs5: "3 * max_digits + 5 \<le> block_size" using bs by simp
  have r: "length rs = batch_size"
    "\<forall>r\<in>set rs. \<exists>a b. 0 \<le> a \<and> a \<le> 10 ^ max_digits - 2 \<and> 0 \<le> b \<and> b \<le> 10 ^ max_digits - 2
              \<and> example block_size max_digits backward a b = Inr r
              \<and> row_ok block_size max_digits (fst r) (snd r) \<and> no_nines max_digits (fst r)"
    using batch_loop_rows[OF l bs5] by blast+
  show "\<forall>i<batch_size.
           (\<exists>a b. 0 \<le> a \<and> a \<le> 10 ^ max_digits - 2 \<and> 0 \<le> b \<and> b \<le> 10 ^ max_digits - 2
                  \<and> example block_size max_digits backward a b = Inr (x ! i, y ! i))
           \<and> take max_digits (drop 1 (x ! i)) \<noteq> replicate max_digits (the (ctoi ''9''))
           \<and> take max_digits (drop (max_digits + 2) (x ! i)) \<noteq> replicate max_digits (the (ctoi ''9''))"
  proof (intro allI impI)
    fix i assume i: "i < batch_size"
    then have "rs ! i \<in> set rs" using r(1) by simp
    then obtain a b where "0 \<le> a \<and> a \<le> 10 ^ max_digits - 2 \<and> 0 \<le> b \<and> b \<le> 10 ^ max_digits - 2
              \<and> example block_size max_digits backward a b = Inr (rs ! i) \<and> no_nines max_digits (fst (rs ! i))"
      using r(2) by meson
    moreover have "x ! i = fst (rs ! i)" "y ! i = snd (rs ! i)" using i r(1) xy by simp_all
    ultimately show "(\<exists>a b. 0 \<le> a \<and> a \<le> 10 ^ max_digits - 2 \<and> 0 \<le> b \<and> b \<le> 10 ^ max_digits - 2
                  \<and> example block_size max_digits backward a b = Inr (x ! i, y ! i))
           \<and> take max_digits (drop 1 (x ! i)) \<noteq> replicate max_digits (the (ctoi ''9''))
           \<and> take max_digits (drop (max_digits + 2) (x ! i)) \<noteq> replicate max_digits (the (ctoi ''9''))"
      unfolding no_nines_def by (auto simp: ctoi_values)
  qed
qed

text \<open>Two concrete runs of the batch generator.\<close>

lemma example_eval_5_5:
  "example 13 2 False 5 5 =
     Inr ([14, 1, 7, 0, 1, 7, 15, 1, 2, 1, 12, 13, 13],
          [- 1, - 1, - 1, - 1, - 1, - 1, 1, 2, 1, 12, 13, 13, 13])"
  by code_simp

lemma example_eval_98_0:
  "example 13 2 True 98 0 =
     Inr ([14, 11, 10, 0, 1, 1, 15, 10, 11, 1, 12, 13, 13],
          [- 1, - 1, - 1, - 1, - 1, - 1, 10, 11, 1, 12, 13, 13, 13])"
  by code_simp

lemma randint_eval_5: "randint 0 (10 ^ 2 - 1) 2 (\<lambda>i. 5) = Inr ([5, 5], \<lambda>i. 5)"
  by (simp add: randint_def upt_rec numeral_2_eq_2)

lemma randint_eval_98:
  "randint 0 (10 ^ 2 - 1) 2 (\<lambda>i. 98 + 100 * i) = Inr ([98, 0], \<lambda>i. 298 + 100 * i)"
  by (simp add: randint_def upt_rec numeral_2_eq_2)

lemma generate_batch_eval_5:
  "generate_batch 13 1 2 False (\<lambda>i. 5) =
     Inr ([[14, 1, 7, 0, 1, 7, 15, 1, 2, 1, 12, 13, 13]],
          [[- 1, - 1, - 1, - 1, - 1, - 1, 1, 2, 1, 12, 13, 13, 13]], \<lambda>i. 5)"
proof -
  have "batch_loop (Suc 0) 13 2 False (\<lambda>i. 5) =
     Inr ([([14, 1, 7, 0, 1, 7, 15, 1, 2, 1, 12, 13, 13],
            [- 1, - 1, - 1, - 1, - 1, - 1, 1, 2, 1, 12, 13, 13, 13])], \<lambda>i. 5)"
    using randint_eval_5 example_eval_5_5 by simp
  then show ?thesis by (simp add: generate_batch_def Let_def)
qed

lemma generate_batch_eval_98:
  "generate_batch 13 1 2 True (\<lambda>i. 98 + 100 * i) =
     Inr ([[14, 11, 10, 0, 1, 1, 15, 10, 11, 1, 12, 13, 13]],
          [[- 1, - 1, - 1, - 1, - 1, - 1, 10, 11, 1, 12, 13, 13, 13]], \<lambda>i. 298 + 100 * i)"
proof -
  have "batch_loop (Suc 0) 13 2 True (\<lambda>i. 98 + 100 * i) =
     Inr ([([14, 11, 10, 0, 1, 1, 15, 10, 11, 1, 12, 13, 13],
            [- 1, - 1, - 1, - 1, - 1, - 1, 10, 11, 1, 12, 13, 13, 13])], \<lambda>i. 298 + 100 * i)"
    using randint_eval_98 example_eval_98_0 by simp
  then show ?thesis by (simp add: generate_batch_def Let_def)
qed

theorem generate_batch_targets_witness:
  "generate_batch 13 1 2 False (\<lambda>i. 5) =
     Inr ([[14, 1, 7, 0, 1, 7, 15, 1, 2, 1, 12, 13, 13]],
          [[- 1, - 1, - 1, - 1, - 1, - 1, 1, 2, 1, 12, 13, 13, 13]], \<lambda>i. 5)
   \<and> length [[14, 1, 7, 0, 1, 7, 15, 1, 2, 1, 12, 13, 13 :: int]] = 1
   \<and> ctoi ''='' = Some ([[14, 1, 7, 0, 1, 7, 15, 1, 2, 1, 12, 13, 13]] ! 0 ! (2 * 2 + 2))
   \<and> [[- 1, - 1, - 1, - 1, - 1, - 1, 1, 2, 1, 12, 13, 13, 13 :: int]] ! 0 ! 5 = - 1
   \<and> [[- 1, - 1, - 1, - 1, - 1, - 1, 1, 2, 1, 12, 13, 13, 13 :: int]] ! 0 ! 6
       = [[14, 1, 7, 0, 1, 7, 15, 1, 2, 1, 12, 13, 13]] ! 0 ! (6 + 1)
   \<and> (1::nat) \<le> 2 \<and> (2::nat) \<le> 18 \<and> (1::nat) \<le> 1 \<and> 3 * 2 + 7 \<le> (13::nat)
   \<and> (\<exists>x y g'. generate_batch 13 1 2 False (\<lambda>i. 5) = Inr (x, y, g'))"
  using generate_batch_targets [where block_size = 13 and batch_size = 1 and max_digits = 2
      and backward = False and g = "\<lambda>i. 5"
      and x = "[[14, 1, 7, 0, 1, 7, 15, 1, 2, 1, 12, 13, 13]]"
      and y = "[[- 1, - 1, - 1, - 1, - 1, - 1, 1, 2, 1, 12, 13, 13, 13]]" and g' = "\<lambda>i. 5"]
    generate_batch_eval_5
  by (simp add: ctoi_values)

theorem generate_batch_block_size_witness:
  "(12::nat) < 3 * 2 + 7 \<and> generate_batch 12 1 2 False (\<lambda>i. 5) = Inl AssertionError
   \<and> 3 * 2 + 7 \<le> (13::nat) \<and> generate_batch 13 1 2 False (\<lambda>i. 5) \<noteq> Inl AssertionError"
  using generate_batch_block_size [where block_size = 12 and batch_size = 1 and max_digits = 2
      and backward = False and g = "\<lambda>i. 5"]
    generate_batch_block_size [where block_size = 13 and batch_size = 1 and max_digits = 2
      and backward = False and g = "\<lambda>i. 5"]
  by simp

theorem generate_batch_operands_witness:
  "randint 0 (10 ^ 2 - 1) 2 (\<lambda>i. 98 + 100 * i) = Inr ([98, 0], \<lambda>i. 298 + 100 * i)
   \<and> length [98, 0 :: int] = 2 \<and> (98::int) \<le> 10 ^ 2 - 2 \<and> (98::int) \<noteq> 10 ^ 2 - 1
   \<and> generate_batch 13 1 2 True (\<lambda>i. 98 + 100 * i) =
       Inr ([[14, 11, 10, 0, 1, 1, 15, 10, 11, 1, 12, 13, 13]],
            [[- 1, - 1, - 1, - 1, - 1, - 1, 10, 11, 1, 12, 13, 13, 13]], \<lambda>i. 298 + 100 * i)
   \<and> take 2 (drop 1 ([[14, 11, 10, 0, 1, 1, 15, 10, 11, 1, 12, 13, 13]] ! 0))
       \<noteq> replicate 2 (the (ctoi ''9''))"
  using generate_batch_operands [where block_size = 13 and batch_size = 1 and max_digits = 2
      and backward = True and g = "\<lambda>i. 98 + 100 * i" and ab = "[98, 0]"
      and gr = "\<lambda>i. 298 + 100 * i"
      and x = "[[14, 11, 10, 0, 1, 1, 15, 10, 11, 1, 12, 13, 13]]"
      and y = "[[- 1, - 1, - 1, - 1, - 1, - 1, 10, 11, 1, 12, 13, 13, 13]]"
      and g' = "\<lambda>i. 298 + 100 * i"]
    randint_eval_98 generate_batch_eval_98
  by (simp add: ctoi_values)

section \<open>Results of the embedding lookups\<close>

lemma collect_map_Inr: "collect (map Inr vs) = Inr vs"
  by (induction vs) auto

lemma collect_Inr: "collect rs = Inr vs \<Longrightarrow> rs = map Inr vs"
  by (induction rs arbitrary: vs) (auto split: sum.splits)

lemma collect_Inl: "collect rs = Inl e \<Longrightarrow> Inl e \<in> set rs"
  by (induction rs) (auto split: sum.splits)

lemma collect_all_ok:
  assumes "\<forall>r\<in>set rs. \<exists>v. f r = Inr (g r)"
  shows "collect (map f rs) = Inr (map g rs)"
  using assms by (induction rs) auto

lemma collect_some_bad:
  assumes "\<forall>r\<in>set rs. f r = Inr (g r) \<or> f r = Inl e" "\<exists>r\<in>set rs. f r = Inl e"
  shows "collect (map f rs) = Inl e"
  using assms
proof (induction rs)
  case Nil
  then show ?case by simp
next
  case (Cons a rs)
  show ?case
  proof (cases "f a")
    case (Inl x)
    then show ?thesis using Cons.prems(1) by auto
  next
    case (Inr v)
    then have "\<exists>r\<in>set rs. f r = Inl e" using Cons.prems(2) by auto
    then have "collect (map f rs) = Inl e" using Cons by auto
    then show ?thesis using Inr by simp
  qed
qed

lemma embedding_cases:
  "embedding w i = (if id_ok (length w) i then Inr (w ! nat i) else Inl IndexError)"
  by (auto simp: embedding_def id_ok_def)

lemma embedding_seq_ok:
  "list_all (id_ok (length w)) ids \<Longrightarrow> embedding_seq w ids = Inr (lookup w ids)"
  unfolding embedding_seq_def lookup_def
  by (rule collect_all_ok) (auto simp: embedding_cases list_all_iff)

lemma embedding_seq_bad:
  "\<not> list_all (id_ok (length w)) ids \<Longrightarrow> embedding_seq w ids = Inl IndexError"
  unfolding embedding_seq_def
  by (rule collect_some_bad[where g = "\<lambda>i. w ! nat i"]) (auto simp: embedding_cases list_all_iff)

lemma positions_ok: "list_all (id_ok n) (map int [0..<T]) \<longleftrightarrow> T \<le> n"
proof
  assume h: "list_all (id_ok n) (map int [0..<T])"
  show "T \<le> n"
  proof (cases T)
    case 0 then show ?thesis by simp
  next
    case (Suc k)
    then have "int k \<in> set (map int [0..<T])" by auto
    then have "id_ok n (int k)" using h unfolding list_all_iff by blast
    then show ?thesis using Suc by (simp add: id_ok_def)
  qed
next
  assume "T \<le> n" then show "list_all (id_ok n) (map int [0..<T])"
    by (auto simp: list_all_iff id_ok_def)
qed

lemma lookup_positions: "T \<le> length w \<Longrightarrow> lookup w (map int [0..<T]) = take T w"
  by (rule nth_equalityI) (auto simp: lookup_def)

lemma pos_embedding_cases:
  "embedding_seq w (map int [0..<T]) = (if T \<le> length w then Inr (take T w) else Inl IndexError)"
  using embedding_seq_ok[of w "map int [0..<T]"] embedding_seq_bad[of w "map int [0..<T]"]
  by (auto simp: positions_ok lookup_positions)

lemma token_embedding_cases:
  "collect (map (embedding_seq w) rows) =
     (if list_all (list_all (id_ok (length w))) rows then Inr (map (lookup w) rows) else Inl IndexError)"
proof (cases "list_all (list_all (id_ok (length w))) rows")
  case True
  then have "collect (map (embedding_seq w) rows) = Inr (map (lookup w) rows)"
    by (intro collect_all_ok) (auto simp: list_all_iff embedding_seq_ok)
  with True show ?thesis by simp
next
  case False
  have "collect (map (embedding_seq w) rows) = Inl IndexError"
  proof (rule collect_some_bad[where g = "lookup w"])
    show "\<forall>r\<in>set rows. embedding_seq w r = Inr (lookup w r) \<or> embedding_seq w r = Inl IndexError"
      using embedding_seq_ok embedding_seq_bad by blast
    show "\<exists>r\<in>set rows. embedding_seq w r = Inl IndexError"
      using False embedding_seq_bad by (auto simp: list_all_iff)
  qed
  with False show ?thesis by simp
qed

section \<open>Shapes through the layers\<close>

lemma length_dropout_mat [simp]: "length (dropout_mat p tr tape x) = length x"
  by (simp add: dropout_mat_def)

lemma map_enumerate_snd: "map (\<lambda>(i, v). f v) (enumerate n xs) = map f xs"
  by (induction xs arbitrary: n) simp_all

lemma dropout_mat_eval [simp]: "dropout_mat p False tape x = x"
  unfolding dropout_mat_def dropout_def by (simp add: map_enumerate_snd)

lemma dropout_mat_zero [simp]: "dropout_mat 0 tr tape x = x"
  unfolding dropout_mat_def dropout_def by (simp add: map_enumerate_snd)

lemma length_mha_forward [simp]: "length (mha_forward a tr tape x) = length x"
  by (simp add: mha_forward_def Let_def)

lemma length_ff_forward [simp]: "length (ff_forward f tr tape x) = length x"
  by (simp add: ff_forward_def)

lemma length_mat_add [simp]: "length (mat_add x y) = min (length x) (length y)"
  by (simp add: mat_add_def)

lemma length_block_forward [simp]: "length (block_forward b tr tape x) = length x"
  by (simp add: block_forward_def Let_def)

lemma length_blocks_forward [simp]: "length (blocks_forward bs i tr tape x) = length x"
  by (induction bs arbitrary: i x) auto

lemma forward_cases:
  "forward m tape idx targets =
     (if \<not> ids_ok (length (token_embedding m)) idx then Inl IndexError
      else if \<not> ncols idx \<le> length (pos_embedding m) then Inl IndexError
      else if m_embedding_dim (cfg m) \<noteq> in_features (lm_head m) then Inl RuntimeError
      else case targets of
             None \<Rightarrow> Inr (Logits3 (logits3 m tape idx), None)
           | Some tg \<Rightarrow>
               if length (concat (irows tg)) \<noteq> length (irows idx) * ncols idx then Inl RuntimeError
               else (case cross_entropy (concat (logits3 m tape idx)) (concat (irows tg)) of
                       Inl e \<Rightarrow> Inl e
                     | Inr loss \<Rightarrow> Inr (Logits2 (concat (logits3 m tape idx)), Some loss)))"
  unfolding forward_def Let_def token_embedding_cases pos_embedding_cases ids_ok_def
    logits3_def hidden_def
  by (simp split: option.splits)

lemma list_all_map_enumerate:
  assumes "\<And>b xb. xb \<in> set x \<Longrightarrow> P (F b xb)"
  shows "list_all P (map (\<lambda>(b, xb). F b xb) (enumerate n x))"
  using assms by (induction x arbitrary: n) simp_all

lemma length_hidden [simp]: "length (hidden m tape idx) = length (irows idx)"
  by (simp add: hidden_def)

lemma hidden_rows:
  assumes "itensor_ok idx" "ncols idx \<le> length (pos_embedding m)"
  shows "list_all (\<lambda>xb. length xb = ncols idx) (hidden m tape idx)"
proof -
  have *: "list_all (\<lambda>xb. length xb = ncols idx)
         (map (\<lambda>(b, xb). blocks_forward (blocks m) 0 (training m) (sub tape b) xb)
          (enumerate 0
             (map (\<lambda>tok. mat_add tok (take (ncols idx) (pos_embedding m)))
                (map (lookup (token_embedding m)) (irows idx)))))"
    using assms
    by (intro list_all_map_enumerate) (auto simp: itensor_ok_def list_all_iff lookup_def)
  show ?thesis
    unfolding hidden_def using * by (simp add: list_all_iff)
qed

lemma length_linear_row:
  "linear_ok n_in n_out wb l \<Longrightarrow> length (linear_row l x) = n_out"
  by (auto simp: linear_ok_def linear_row_def split: option.splits)

lemma logits3_shape:
  assumes "model_ok m" "itensor_ok idx" "ncols idx \<le> m_block_size (cfg m)"
  shows "length (logits3 m tape idx) = length (irows idx)"
    and "list_all (\<lambda>lb. length lb = ncols idx
                        \<and> list_all (\<lambda>row. length row = m_vocab_size (cfg m)) lb) (logits3 m tape idx)"
proof -
  show "length (logits3 m tape idx) = length (irows idx)" by (simp add: logits3_def)
  have pos: "ncols idx \<le> length (pos_embedding m)" using assms(1,3) by (simp add: model_ok_def)
  have lin: "linear_ok (m_head_size (cfg m)) (m_vocab_size (cfg m)) True (lm_head m)"
    using assms(1) by (simp add: model_ok_def)
  show "list_all (\<lambda>lb. length lb = ncols idx
                        \<and> list_all (\<lambda>row. length row = m_vocab_size (cfg m)) lb) (logits3 m tape idx)"
    using hidden_rows[OF assms(2) pos, of tape] length_linear_row[OF lin]
    by (auto simp: logits3_def list_all_iff)
qed

lemma concat_logits3:
  assumes "model_ok m" "itensor_ok idx" "ncols idx \<le> m_block_size (cfg m)"
  shows "length (concat (logits3 m tape idx)) = length (irows idx) * ncols idx"
    and "list_all (\<lambda>row. length row = m_vocab_size (cfg m)) (concat (logits3 m tape idx))"
proof -
  note sh = logits3_shape[OF assms, of tape]
  have "map length (logits3 m tape idx) = replicate (length (irows idx)) (ncols idx)"
    using sh by (intro nth_equalityI) (auto simp: list_all_iff)
  then show "length (concat (logits3 m tape idx)) = length (irows idx) * ncols idx"
    by (simp add: length_concat sum_list_replicate)
  show "list_all (\<lambda>row. length row = m_vocab_size (cfg m)) (concat (logits3 m tape idx))"
    using sh(2) by (auto simp: list_all_iff)
qed

lemma cross_entropy_ok:
  assumes "length lg = length tg" "list_all (\<lambda>row. length row = V) lg"
    "list_all (\<lambda>t. t = - 1 \<or> id_ok V t) tg"
  shows "\<exists>loss. cross_entropy lg tg = Inr loss"
proof -
  have "\<not> (\<exists>(row, t)\<in>set (zip lg tg). t \<noteq> - 1 \<and> \<not> (0 \<le> t \<and> nat t < length row))"
  proof
    assume "\<exists>(row, t)\<in>set (zip lg tg). t \<noteq> - 1 \<and> \<not> (0 \<le> t \<and> nat t < length row)"
    then obtain row t where z: "(row, t) \<in> set (zip lg tg)"
      and bad: "t \<noteq> - 1" "\<not> (0 \<le> t \<and> nat t < length row)" by auto
    have "row \<in> set lg" "t \<in> set tg" using z by (auto dest: set_zip_leftD set_zip_rightD)
    then have "length row = V" "t = - 1 \<or> id_ok V t" using assms(2,3) by (auto simp: list_all_iff)
    then show False using bad by (auto simp: id_ok_def)
  qed
  then show ?thesis using assms(1) by (simp add: cross_entropy_def Let_def)
qed

lemma forward_ok:
  assumes "model_ok m" "itensor_ok idx" "ids_ok (m_vocab_size (cfg m)) idx"
    "ncols idx \<le> m_block_size (cfg m)" "targets_ok (m_vocab_size (cfg m)) (length (irows idx) * ncols idx) targets"
    "m_head_size (cfg m) = m_embedding_dim (cfg m)"
  shows "targets = None \<Longrightarrow> forward m tape idx targets = Inr (Logits3 (logits3 m tape idx), None)"
    and "targets \<noteq> None \<Longrightarrow>
           \<exists>loss. forward m tape idx targets = Inr (Logits2 (concat (logits3 m tape idx)), Some loss)"
proof -
  have tok: "length (token_embedding m) = m_vocab_size (cfg m)"
    and pos: "length (pos_embedding m) = m_block_size (cfg m)"
    and lin: "in_features (lm_head m) = m_head_size (cfg m)"
    using assms(1) by (simp_all add: model_ok_def linear_ok_def)
  show "targets = None \<Longrightarrow> forward m tape idx targets = Inr (Logits3 (logits3 m tape idx), None)"
    using assms(3,4,6) by (simp add: forward_cases tok pos lin)
  assume "targets \<noteq> None"
  then obtain tg where tg: "targets = Some tg" by auto
  then have t: "length (concat (irows tg)) = length (irows idx) * ncols idx"
    "list_all (\<lambda>t. t = - 1 \<or> id_ok (m_vocab_size (cfg m)) t) (concat (irows tg))"
    using assms(5) by (simp_all add: targets_ok_def)
  note c = concat_logits3[OF assms(1,2,4), of tape]
  obtain loss where "cross_entropy (concat (logits3 m tape idx)) (concat (irows tg)) = Inr loss"
    using cross_entropy_ok[OF _ c(2) t(2)] c(1) t(1) by auto
  then show "\<exists>loss. forward m tape idx targets = Inr (Logits2 (concat (logits3 m tape idx)), Some loss)"
    using assms(3,4,6) t(1) by (simp add: forward_cases tok pos lin tg)
qed

lemma forward_mismatch:
  assumes "model_ok m" "ids_ok (m_vocab_size (cfg m)) idx" "ncols idx \<le> m_block_size (cfg m)"
    "m_head_size (cfg m) \<noteq> m_embedding_dim (cfg m)"
  shows "forward m tape idx targets = Inl RuntimeError"
proof -
  have tok: "length (token_embedding m) = m_vocab_size (cfg m)"
    and pos: "length (pos_embedding m) = m_block_size (cfg m)"
    and lin: "in_features (lm_head m) = m_head_size (cfg m)"
    using assms(1) by (simp_all add: model_ok_def linear_ok_def)
  show ?thesis using assms(2,3,4) by (simp add: forward_cases tok pos lin)
qed

lemma forward_overflow:
  assumes "model_ok m" "m_block_size (cfg m) < ncols idx"
  shows "forward m tape idx targets = Inl IndexError"
proof -
  have pos: "length (pos_embedding m) = m_block_size (cfg m)"
    using assms(1) by (simp add: model_ok_def)
  show ?thesis using assms(2) by (simp add: forward_cases pos)
qed

section \<open>The width of the activations\<close>

lemma length_layer_norm_row:
  "layer_norm_ok C nrm \<Longrightarrow> length v = C \<Longrightarrow> length (layer_norm_row nrm v) = C"
  by (simp add: layer_norm_row_def layer_norm_ok_def Let_def)

lemma dropout_mat_width:
  assumes "list_all (\<lambda>r. length r = C) x"
  shows "list_all (\<lambda>r. length r = C) (dropout_mat p tr tape x)"
  unfolding dropout_mat_def
  using assms by (intro list_all_map_enumerate) (auto simp: list_all_iff)

lemma mat_add_width:
  assumes "list_all (\<lambda>r. length r = C) x" "list_all (\<lambda>r. length r = C) y"
  shows "list_all (\<lambda>r. length r = C) (mat_add x y)"
proof -
  have "length (map2 (+) a b) = C" if "(a, b) \<in> set (zip x y)" for a b
  proof -
    have "a \<in> set x" "b \<in> set y" using that by (auto dest: set_zip_leftD set_zip_rightD)
    then show ?thesis using assms by (simp add: list_all_iff)
  qed
  then show ?thesis by (auto simp: mat_add_def list_all_iff)
qed

lemma mha_forward_width:
  assumes "attention_ok c a"
  shows "list_all (\<lambda>r. length r = m_embedding_dim c) (mha_forward a tr tape x)"
proof -
  have "linear_ok (m_head_size c) (m_embedding_dim c) True (att_proj a)"
    using assms by (simp add: attention_ok_def)
  then have "length (linear_row (att_proj a) r) = m_embedding_dim c" for r
    by (rule length_linear_row)
  then show ?thesis
    unfolding mha_forward_def Let_def
    by (intro dropout_mat_width) (simp add: list_all_iff)
qed

lemma ff_forward_width:
  assumes "feed_forward_ok c f"
  shows "list_all (\<lambda>r. length r = m_embedding_dim c) (ff_forward f tr tape x)"
proof -
  have "linear_ok (4 * m_embedding_dim c) (m_embedding_dim c) True (ff_fc2 f)"
    using assms by (simp add: feed_forward_ok_def)
  then have "length (linear_row (ff_fc2 f) r) = m_embedding_dim c" for r
    by (rule length_linear_row)
  then show ?thesis
    unfolding ff_forward_def
    by (intro dropout_mat_width) (simp add: list_all_iff)
qed

lemma block_forward_width:
  assumes "block_ok c b" "list_all (\<lambda>r. length r = m_embedding_dim c) x"
  shows "list_all (\<lambda>r. length r = m_embedding_dim c) (block_forward b tr tape x)"
proof -
  have a: "attention_ok c (blk_sa b)" and f: "feed_forward_ok c (blk_ff b)"
    using assms(1) by (simp_all add: block_ok_def)
  show ?thesis
    unfolding block_forward_def Let_def
    by (intro mat_add_width assms(2) mha_forward_width[OF a] ff_forward_width[OF f])
qed

lemma blocks_forward_width:
  assumes "list_all (block_ok c) bs" "list_all (\<lambda>r. length r = m_embedding_dim c) x"
  shows "list_all (\<lambda>r. length r = m_embedding_dim c) (blocks_forward bs i tr tape x)"
  using assms
proof (induction bs arbitrary: i x)
  case Nil
  then show ?case by simp
next
  case (Cons b bs)
  then show ?case by (simp add: block_forward_width)
qed

lemma hidden_width:
  assumes "model_ok m" "ids_ok (m_vocab_size (cfg m)) idx"
  shows "list_all (list_all (\<lambda>r. length r = m_embedding_dim (cfg m))) (hidden m tape idx)"
proof -
  let ?C = "m_embedding_dim (cfg m)"
  have tok: "list_all (\<lambda>r. length r = ?C) (token_embedding m)"
    and tl: "length (token_embedding m) = m_vocab_size (cfg m)"
    and pos: "list_all (\<lambda>r. length r = ?C) (pos_embedding m)"
    and bl: "list_all (block_ok (cfg m)) (blocks m)"
    and nf: "layer_norm_ok ?C (ln_f m)"
    using assms(1) by (simp_all add: model_ok_def)
  have lk: "list_all (\<lambda>r. length r = ?C) (lookup (token_embedding m) row)"
    if "row \<in> set (irows idx)" for row
  proof -
    have "list_all (id_ok (length (token_embedding m))) row"
      using that assms(2) tl by (simp add: ids_ok_def list_all_iff)
    then have "\<forall>i\<in>set row. token_embedding m ! nat i \<in> set (token_embedding m)"
      by (auto simp: list_all_iff id_ok_def)
    then show ?thesis using tok by (auto simp: lookup_def list_all_iff)
  qed
  have tp: "list_all (\<lambda>r. length r = ?C) (take n (pos_embedding m))" for n
    using pos by (auto simp: list_all_iff dest: in_set_takeD)
  have "list_all (list_all (\<lambda>r. length r = ?C))
         (map (\<lambda>(b, xb). blocks_forward (blocks m) 0 (training m) (sub tape b) xb)
          (enumerate 0
             (map (\<lambda>tok. mat_add tok (take (ncols idx) (pos_embedding m)))
                (map (lookup (token_embedding m)) (irows idx)))))"
    by (intro list_all_map_enumerate blocks_forward_width[OF bl])
       (auto intro!: mat_add_width lk tp)
  then show ?thesis
    unfolding hidden_def using nf by (auto simp: list_all_iff length_layer_norm_row)
qed

section \<open>The steps of generation\<close>

lemma crop_ok:
  assumes "itensor_ok idx" "0 < k"
  shows "itensor_ok (crop k idx)" "ncols (crop k idx) = min (ncols idx) k"
    "length (irows (crop k idx)) = length (irows idx)"
  using assms by (auto simp: crop_def itensor_ok_def list_all_iff)

lemma crop_ids:
  assumes "ids_ok V idx"
  shows "ids_ok V (crop k idx)"
  using assms by (auto simp: crop_def ids_ok_def list_all_iff dest: in_set_dropD)

lemma sum_list_pos:
  fixes xs :: "real list"
  assumes "xs \<noteq> []" "\<forall>x\<in>set xs. 0 < x"
  shows "0 < sum_list xs"
  using assms by (induction xs) (auto intro: add_pos_nonneg sum_list_nonneg less_imp_le)

lemma softmax_Some:
  assumes "row \<noteq> []"
  shows "length (softmax (map Some row)) = length row"
    and "\<forall>p\<in>set (softmax (map Some row)). 0 < p"
    and "0 < sum_list (softmax (map Some row))"
proof -
  let ?es = "map expo (map Some row)"
  have pos: "\<forall>e\<in>set ?es. 0 < e" by (auto simp: expo_def)
  have "?es \<noteq> []" using assms by simp
  then have z: "0 < sum_list ?es" using pos by (rule sum_list_pos)
  show "length (softmax (map Some row)) = length row" by (simp add: softmax_def Let_def)
  show p: "\<forall>p\<in>set (softmax (map Some row)). 0 < p"
    using pos z by (auto simp: softmax_def Let_def)
  have "softmax (map Some row) \<noteq> []" using assms by (simp add: softmax_def Let_def)
  then show "0 < sum_list (softmax (map Some row))" using p by (rule sum_list_pos)
qed

lemma pick_less: "ps \<noteq> [] \<Longrightarrow> pick ps u < length ps"
  by (induction ps u rule: pick.induct) auto

lemma multinomial_ok:
  assumes "0 < V" "list_all (\<lambda>row. length row = V) lg"
  shows "\<exists>nxt. multinomial (map (\<lambda>row. softmax (map Some row)) lg) V tape = Inr nxt
           \<and> length nxt = length lg \<and> list_all (id_ok V) nxt"
proof -
  let ?probs = "map (\<lambda>row. softmax (map Some row)) lg"
  have ne: "row \<noteq> []" if "row \<in> set lg" for row
    using that assms by (auto simp: list_all_iff)
  have good: "\<not> (\<exists>row\<in>set ?probs. (\<exists>p\<in>set row. p < 0) \<or> sum_list row \<le> 0)"
    using softmax_Some(2,3)[OF ne] by (fastforce simp: not_less not_le)
  let ?nxt = "map (\<lambda>(b, row). int (pick row (tape [b] * sum_list row))) (enumerate 0 ?probs)"
  have m: "multinomial ?probs V tape = Inr ?nxt"
    using good assms(1) by (simp add: multinomial_def)
  have "list_all (id_ok V) ?nxt"
  proof (rule list_all_map_enumerate)
    fix b row assume "row \<in> set ?probs"
    then obtain r where r: "r \<in> set lg" "row = softmax (map Some r)" by auto
    then have "length row = V" using softmax_Some(1)[OF ne[OF r(1)]] assms(2)
      by (simp add: list_all_iff)
    then have "pick row (tape [b] * sum_list row) < V"
      using pick_less[of row] assms(1) by auto
    then show "id_ok V (int (pick row (tape [b] * sum_list row)))" by (simp add: id_ok_def)
  qed
  then show ?thesis using m by simp
qed

lemma last_step_ok:
  assumes "0 < T" "list_all (\<lambda>lb. length lb = T \<and> list_all (\<lambda>row. length row = V) lb) l"
  shows "last_step T (Logits3 l) = Inr (map last l)"
    and "list_all (\<lambda>row. length row = V) (map last l)"
proof -
  show "last_step T (Logits3 l) = Inr (map last l)" using assms(1) by (simp add: last_step_def)
  have "length (last lb) = V" if "lb \<in> set l" for lb
  proof -
    have "lb \<noteq> []" "list_all (\<lambda>row. length row = V) lb"
      using that assms by (auto simp: list_all_iff)
    then show ?thesis using last_in_set[of lb] by (auto simp: list_all_iff)
  qed
  then show "list_all (\<lambda>row. length row = V) (map last l)" by (simp add: list_all_iff)
qed

lemma cat_next_ok:
  assumes "itensor_ok idx" "ids_ok V idx" "length nxt = length (irows idx)" "list_all (id_ok V) nxt"
  shows "itensor_ok (cat_next idx nxt)" "ids_ok V (cat_next idx nxt)"
    "ncols (cat_next idx nxt) = ncols idx + 1"
    "length (irows (cat_next idx nxt)) = length (irows idx)"
    "\<forall>b<length (irows idx). take (ncols idx) (irows (cat_next idx nxt) ! b) = irows idx ! b"
proof -
  show "itensor_ok (cat_next idx nxt)"
    using assms(1) by (auto simp: cat_next_def itensor_ok_def list_all_iff dest: set_zip_leftD)
  show "ids_ok V (cat_next idx nxt)"
    using assms(2,4)
    by (auto simp: cat_next_def ids_ok_def list_all_iff dest: set_zip_leftD set_zip_rightD)
  show "ncols (cat_next idx nxt) = ncols idx + 1" by (simp add: cat_next_def)
  show "length (irows (cat_next idx nxt)) = length (irows idx)"
    using assms(3) by (simp add: cat_next_def)
  show "\<forall>b<length (irows idx). take (ncols idx) (irows (cat_next idx nxt) ! b) = irows idx ! b"
    using assms(1,3) by (auto simp: cat_next_def itensor_ok_def list_all_iff)
qed

lemma small_ok: "even h \<Longrightarrow> model_ok (small h)"
  by (auto simp: small_def Let_def model_ok_def block_ok_def attention_ok_def feed_forward_ok_def
      layer_norm_ok_def linear_ok_def list_all_iff)

lemma small_cfg [simp]:
  "m_vocab_size (cfg (small h)) = 2" "m_block_size (cfg (small h)) = 2"
  "m_embedding_dim (cfg (small h)) = 2" "m_head_size (cfg (small h)) = h"
  by (simp_all add: small_def Let_def)

lemma generate_loop_ok:
  assumes m: "model_ok m" "m_head_size (cfg m) = m_embedding_dim (cfg m)"
    and idx: "itensor_ok idx" "ids_ok (m_vocab_size (cfg m)) idx" "0 < ncols idx"
  shows "\<exists>out. generate_loop n m tape k idx = Inr out \<and> itensor_ok out
           \<and> ids_ok (m_vocab_size (cfg m)) out \<and> ncols out = ncols idx + n
           \<and> length (irows out) = length (irows idx)
           \<and> (\<forall>b<length (irows idx). take (ncols idx) (irows out ! b) = irows idx ! b)"
  using idx
proof (induction n arbitrary: idx k)
  case 0
  then show ?case by (auto simp: itensor_ok_def list_all_iff)
next
  case (Suc n)
  let ?V = "m_vocab_size (cfg m)" and ?bs = "m_block_size (cfg m)"
  let ?c = "crop ?bs idx"
  have pos: "0 < ?V" "0 < ?bs" using m(1) by (simp_all add: model_ok_def)
  note c = crop_ok[OF Suc.prems(1) pos(2)] crop_ids[OF Suc.prems(2), of ?bs]
  have cT: "ncols ?c \<le> ?bs" "0 < ncols ?c" using c(2) Suc.prems(3) pos(2) by simp_all
  let ?l = "logits3 m (sub (sub tape k) 0) ?c"
  have f: "forward m (sub (sub tape k) 0) ?c None = Inr (Logits3 ?l, None)"
    by (rule forward_ok(1)[OF m(1) c(1) c(4) cT(1) _ m(2)]) (simp_all add: targets_ok_def)
  note sh = logits3_shape[OF m(1) c(1) cT(1), of "sub (sub tape k) 0"]
  note ls = last_step_ok[OF cT(2) sh(2)]
  obtain nxt where nxt:
    "multinomial (map (\<lambda>row. softmax (map Some row)) (map last ?l)) ?V (sub (sub tape k) 1) = Inr nxt"
    "length nxt = length (map last ?l)" "list_all (id_ok ?V) nxt"
    using multinomial_ok[OF pos(1) ls(2)] by blast
  have ln: "length nxt = length (irows idx)" using nxt(2) sh(1) c(3) by simp
  note cn = cat_next_ok[OF Suc.prems(1,2) ln nxt(3)]
  have "0 < ncols (cat_next idx nxt)" using cn(3) by simp
  from Suc.IH[OF cn(1) cn(2) this, of "Suc k"]
  obtain out where out: "generate_loop n m tape (Suc k) (cat_next idx nxt) = Inr out"
    "itensor_ok out" "ids_ok ?V out" "ncols out = ncols (cat_next idx nxt) + n"
    "length (irows out) = length (irows (cat_next idx nxt))"
    "\<forall>b<length (irows (cat_next idx nxt)).
        take (ncols (cat_next idx nxt)) (irows out ! b) = irows (cat_next idx nxt) ! b"
    by blast
  have step: "generate_loop (Suc n) m tape k idx = Inr out"
    using f ls(1) nxt(1) out(1) by (simp add: Let_def)
  have pre: "take (ncols idx) (irows out ! b) = irows idx ! b" if b: "b < length (irows idx)" for b
  proof -
    have "take (ncols idx) (irows out ! b) = take (ncols idx) (take (ncols idx + 1) (irows out ! b))"
      by (simp add: min_def)
    also have "\<dots> = take (ncols idx) (irows (cat_next idx nxt) ! b)"
      using out(6) b cn(3,4) by simp
    also have "\<dots> = irows idx ! b" using cn(5) b by simp
    finally show ?thesis .
  qed
  show ?case using step out(2,3,4,5) cn(3,4) pre by simp
qed

text \<open>
  Claim C2, amended: on a model whose forward pass can succeed (\<open>head_size = embedding_dim\<close>),
  for every seed batch of shape \<open>(B, L)\<close> with \<open>L \<ge> 1\<close> whose ids are vocabulary ids, and
  for every count \<open>N\<close>, \<open>generate\<close> returns a tensor of \<open>B\<close> rows and \<open>L + N\<close> columns whose
  first \<open>L\<close> columns are the seed.  The statement holds for every content of the random
  tape, so whatever token is sampled (the end token as well) all \<open>N\<close> rounds are made, each
  appending one column.
\<close>

theorem generate_extends_seed:
  assumes "model_ok m" "m_head_size (cfg m) = m_embedding_dim (cfg m)"
    and "itensor_ok idx" "ids_ok (m_vocab_size (cfg m)) idx" "0 < ncols idx"
  shows "\<exists>out m'. generate m tape idx max_new_tokens = (Inr out, m')
           \<and> ncols out = ncols idx + max_new_tokens
           \<and> length (irows out) = length (irows idx)
           \<and> itensor_ok out \<and> ids_ok (m_vocab_size (cfg m)) out
           \<and> (\<forall>b<length (irows idx). take (ncols idx) (irows out ! b) = irows idx ! b)"
proof -
  let ?m = "m\<lparr>training := False\<rparr>"
  have m': "model_ok ?m" "m_head_size (cfg ?m) = m_embedding_dim (cfg ?m)"
    using assms(1,2) by (simp_all add: model_ok_def)
  have idx: "ids_ok (m_vocab_size (cfg ?m)) idx" using assms(4) by simp
  from generate_loop_ok[OF m' assms(3) idx assms(5), of max_new_tokens tape 0]
  obtain out where "generate_loop max_new_tokens ?m tape 0 idx = Inr out" "itensor_ok out"
    "ids_ok (m_vocab_size (cfg m)) out" "ncols out = ncols idx + max_new_tokens"
    "length (irows out) = length (irows idx)"
    "\<forall>b<length (irows idx). take (ncols idx) (irows out ! b) = irows idx ! b"
    by auto
  then show ?thesis by (simp add: generate_def Let_def)
qed

text \<open>
  Claim C3, amended: when \<open>generate\<close> returns, the model is in train mode and otherwise
  unchanged, so the mode is the prior one exactly when the prior mode was train; when the
  loop raises, the model is left in eval mode and otherwise unchanged.
\<close>

theorem generate_mode_after:
  "(fst (generate m tape idx max_new_tokens) = Inr out \<longrightarrow>
      snd (generate m tape idx max_new_tokens) = m\<lparr>training := True\<rparr>)
   \<and> (fst (generate m tape idx max_new_tokens) = Inl e \<longrightarrow>
      snd (generate m tape idx max_new_tokens) = m\<lparr>training := False\<rparr>)"
  by (auto simp: generate_def Let_def split: sum.splits)

text \<open>
  Claim C7: the forward pass fails whenever \<open>T\<close> exceeds the block size, with the
  IndexError of the position embedding (the specification's ContextOverflowError); for
  \<open>T\<close> up to the block size the position lookup succeeds, and the forward pass of
  well-formed ids and targets does not raise IndexError.
\<close>

theorem forward_context_overflow:
  assumes "model_ok m"
  shows "(m_block_size (cfg m) < ncols idx \<longrightarrow> forward m tape idx targets = Inl IndexError)
    \<and> (ncols idx \<le> m_block_size (cfg m) \<longrightarrow>
         embedding_seq (pos_embedding m) (map int [0..<ncols idx])
           = Inr (take (ncols idx) (pos_embedding m))
         \<and> (itensor_ok idx \<and> ids_ok (m_vocab_size (cfg m)) idx
            \<and> targets_ok (m_vocab_size (cfg m)) (length (irows idx) * ncols idx) targets
            \<longrightarrow> forward m tape idx targets \<noteq> Inl IndexError))"
proof (intro conjI impI)
  assume "m_block_size (cfg m) < ncols idx"
  then show "forward m tape idx targets = Inl IndexError" by (rule forward_overflow[OF assms])
next
  assume "ncols idx \<le> m_block_size (cfg m)"
  then show "embedding_seq (pos_embedding m) (map int [0..<ncols idx])
           = Inr (take (ncols idx) (pos_embedding m))"
    using assms by (simp add: pos_embedding_cases model_ok_def)
next
  assume T: "ncols idx \<le> m_block_size (cfg m)"
    and ok: "itensor_ok idx \<and> ids_ok (m_vocab_size (cfg m)) idx
            \<and> targets_ok (m_vocab_size (cfg m)) (length (irows idx) * ncols idx) targets"
  show "forward m tape idx targets \<noteq> Inl IndexError"
  proof (cases "m_head_size (cfg m) = m_embedding_dim (cfg m)")
    case True
    note f = forward_ok[OF assms _ _ T _ True, of targets tape]
    show ?thesis using f ok by (cases targets) auto
  next
    case False
    then show ?thesis using forward_mismatch[OF assms _ T False] ok by simp
  qed
qed

text \<open>
  Claim C9, amended: \<^verbatim>\<open>lm_head\<close> has input dimension \<open>head_size\<close> while its input, the
  output of \<^verbatim>\<open>ln_f\<close>, has width \<open>embedding_dim\<close>.  For well-formed ids and targets and
  \<open>T\<close> within the block size, the forward pass completes if and only if
  \<open>head_size = embedding_dim\<close>, and otherwise fails with the RuntimeError of the projection;
  when it completes, the logits have shape \<open>(B, T, vocab_size)\<close> in a call without targets
  and are the flattened \<open>(B*T, vocab_size)\<close> view in a call with targets.
\<close>

theorem lm_head_input_size:
  assumes "model_ok m" "itensor_ok idx" "ids_ok (m_vocab_size (cfg m)) idx"
    "ncols idx \<le> m_block_size (cfg m)"
    "targets_ok (m_vocab_size (cfg m)) (length (irows idx) * ncols idx) targets"
  shows "in_features (lm_head m) = m_head_size (cfg m)
    \<and> list_all (list_all (\<lambda>r. length r = m_embedding_dim (cfg m))) (hidden m tape idx)
    \<and> ((\<exists>r. forward m tape idx targets = Inr r) \<longleftrightarrow> m_head_size (cfg m) = m_embedding_dim (cfg m))
    \<and> (m_head_size (cfg m) \<noteq> m_embedding_dim (cfg m) \<longrightarrow>
          forward m tape idx targets = Inl RuntimeError)
    \<and> (m_head_size (cfg m) = m_embedding_dim (cfg m) \<and> targets = None \<longrightarrow>
          (\<exists>l. forward m tape idx targets = Inr (Logits3 l, None)
               \<and> length l = length (irows idx)
               \<and> list_all (\<lambda>lb. length lb = ncols idx
                                \<and> list_all (\<lambda>row. length row = m_vocab_size (cfg m)) lb) l))
    \<and> (m_head_size (cfg m) = m_embedding_dim (cfg m) \<and> targets \<noteq> None \<longrightarrow>
          (\<exists>l loss. forward m tape idx targets = Inr (Logits2 l, Some loss)
               \<and> length l = length (irows idx) * ncols idx
               \<and> list_all (\<lambda>row. length row = m_vocab_size (cfg m)) l))"
proof -
  have 1: "in_features (lm_head m) = m_head_size (cfg m)"
    using assms(1) by (simp add: model_ok_def linear_ok_def)
  note 2 = hidden_width[OF assms(1,3), of tape]
  have 4: "forward m tape idx targets = Inl RuntimeError"
    if "m_head_size (cfg m) \<noteq> m_embedding_dim (cfg m)"
    using forward_mismatch[OF assms(1,3,4) that] .
  have 5: "\<exists>l. forward m tape idx targets = Inr (Logits3 l, None)
               \<and> length l = length (irows idx)
               \<and> list_all (\<lambda>lb. length lb = ncols idx
                                \<and> list_all (\<lambda>row. length row = m_vocab_size (cfg m)) lb) l"
    if "m_head_size (cfg m) = m_embedding_dim (cfg m)" "targets = None"
    using forward_ok(1)[OF assms that(1) that(2), of tape] logits3_shape[OF assms(1,2,4), of tape]
    by blast
  have 6: "\<exists>l loss. forward m tape idx targets = Inr (Logits2 l, Some loss)
               \<and> length l = length (irows idx) * ncols idx
               \<and> list_all (\<lambda>row. length row = m_vocab_size (cfg m)) l"
    if "m_head_size (cfg m) = m_embedding_dim (cfg m)" "targets \<noteq> None"
    using forward_ok(2)[OF assms that(1) that(2), of tape] concat_logits3[OF assms(1,2,4), of tape]
    by blast
  have 3: "(\<exists>r. forward m tape idx targets = Inr r) \<longleftrightarrow> m_head_size (cfg m) = m_embedding_dim (cfg m)"
  proof
    assume ex: "\<exists>r. forward m tape idx targets = Inr r"
    show "m_head_size (cfg m) = m_embedding_dim (cfg m)"
    proof (rule ccontr)
      assume "m_head_size (cfg m) \<noteq> m_embedding_dim (cfg m)"
      from 4[OF this] ex show False by simp
    qed
  next
    assume h: "m_head_size (cfg m) = m_embedding_dim (cfg m)"
    show "\<exists>r. forward m tape idx targets = Inr r"
      using 5[OF h] 6[OF h] by (cases targets) auto
  qed
  show ?thesis using 1 2 3 4 5 6 by blast
qed

lemma small_2_ok: "model_ok (small 2)"
  by (rule small_ok) simp

lemma small_4_ok: "model_ok (small 4)"
  by (rule small_ok) simp

lemma generate_loop_empty_seed:
  assumes m: "model_ok m" "m_head_size (cfg m) = m_embedding_dim (cfg m)"
    and idx: "itensor_ok idx" "ids_ok (m_vocab_size (cfg m)) idx" "ncols idx = 0"
  shows "generate_loop (Suc n) m tape k idx = Inl IndexError"
proof -
  let ?c = "crop (m_block_size (cfg m)) idx"
  have pos: "0 < m_block_size (cfg m)" using m(1) by (simp add: model_ok_def)
  note c = crop_ok[OF idx(1) pos] crop_ids[OF idx(2), of "m_block_size (cfg m)"]
  have T: "ncols ?c = 0" using c(2) idx(3) by simp
  then have "ncols ?c \<le> m_block_size (cfg m)" by simp
  then have "forward m (sub (sub tape k) 0) ?c None
               = Inr (Logits3 (logits3 m (sub (sub tape k) 0) ?c), None)"
    by (intro forward_ok(1)[OF m(1) c(1) c(4) _ _ m(2)]) (simp_all add: targets_ok_def)
  then show ?thesis using T by (simp add: Let_def last_step_def)
qed

lemma generate_empty_seed:
  assumes "model_ok m" "m_head_size (cfg m) = m_embedding_dim (cfg m)"
    and "itensor_ok idx" "ids_ok (m_vocab_size (cfg m)) idx" "ncols idx = 0"
  shows "generate m tape idx (Suc n) = (Inl IndexError, m\<lparr>training := False\<rparr>)"
proof -
  let ?m = "m\<lparr>training := False\<rparr>"
  have "model_ok ?m" "m_head_size (cfg ?m) = m_embedding_dim (cfg ?m)"
    "ids_ok (m_vocab_size (cfg ?m)) idx"
    using assms(1,2,4) by (simp_all add: model_ok_def)
  from generate_loop_empty_seed[OF this(1,2) assms(3) this(3) assms(5)]
  have "generate_loop (Suc n) ?m tape 0 idx = Inl IndexError" .
  then show ?thesis unfolding generate_def Let_def by (simp del: generate_loop.simps)
qed

text \<open>
  Claim C2, as stated, for every seed batch: on a seed of shape \<open>(1, 0)\<close> the first round of
  the loop runs the forward pass on an empty context and then reads the last time step of
  logits that have none, \<^verbatim>\<open>logits[:, -1, :]\<close>; \<open>generate\<close> raises IndexError and
  returns nothing.
\<close>

theorem generate_empty_seed_counterexample:
  "model_ok (small 2) \<and> m_head_size (cfg (small 2)) = m_embedding_dim (cfg (small 2))
   \<and> itensor_ok \<lparr>ncols = 0, irows = [[]]\<rparr> \<and> ids_ok 2 \<lparr>ncols = 0, irows = [[]]\<rparr>
   \<and> fst (generate (small 2) (\<lambda>cs. 0) \<lparr>ncols = 0, irows = [[]]\<rparr> 1) = Inl IndexError"
proof -
  let ?e = "\<lparr>ncols = 0, irows = [[]]\<rparr>"
  have i: "itensor_ok ?e" "ids_ok (m_vocab_size (cfg (small 2))) ?e" "ncols ?e = 0"
    by (simp_all add: itensor_ok_def ids_ok_def)
  have h: "m_head_size (cfg (small 2)) = m_embedding_dim (cfg (small 2))" by simp
  have "generate (small 2) (\<lambda>cs. 0) ?e (Suc 0) = (Inl IndexError, (small 2)\<lparr>training := False\<rparr>)"
    by (rule generate_empty_seed[OF small_2_ok h i])
  then show ?thesis using small_2_ok i by simp
qed

theorem generate_extends_seed_witness:
  "model_ok (small 2) \<and> m_head_size (cfg (small 2)) = m_embedding_dim (cfg (small 2))
   \<and> itensor_ok \<lparr>ncols = 1, irows = [[0], [1]]\<rparr> \<and> ids_ok 2 \<lparr>ncols = 1, irows = [[0], [1]]\<rparr>
   \<and> 0 < ncols \<lparr>ncols = 1, irows = [[0], [1]]\<rparr>
   \<and> (\<exists>out m'. generate (small 2) (\<lambda>cs. 1 / 2) \<lparr>ncols = 1, irows = [[0], [1]]\<rparr> 3 = (Inr out, m')
         \<and> ncols out = 1 + 3 \<and> length (irows out) = 2
         \<and> take 1 (irows out ! 0) = [0] \<and> take 1 (irows out ! 1) = [1])"
proof -
  let ?s = "\<lparr>ncols = 1, irows = [[0], [1]]\<rparr>"
  have i: "itensor_ok ?s" "ids_ok (m_vocab_size (cfg (small 2))) ?s" "0 < ncols ?s"
    by (simp_all add: itensor_ok_def ids_ok_def id_ok_def)
  have h: "m_head_size (cfg (small 2)) = m_embedding_dim (cfg (small 2))" by simp
  from generate_extends_seed[OF small_2_ok h i, of "\<lambda>cs. 1 / 2" 3]
  obtain out m' where o: "generate (small 2) (\<lambda>cs. 1 / 2) ?s 3 = (Inr out, m')"
    "ncols out = ncols ?s + 3" "length (irows out) = length (irows ?s)"
    "\<forall>b<length (irows ?s). take (ncols ?s) (irows out ! b) = irows ?s ! b"
    by blast
  have "take 1 (irows out ! 0) = [0]" "take 1 (irows out ! 1) = [1]"
    using o(4) by (simp_all add: nth_Cons')
  then show ?thesis using small_2_ok i o(1,2,3) by auto
qed

text \<open>
  Claim C3, as stated: a model that is in eval mode before the call is in train mode after
  it, because \<open>generate\<close> ends with \<^verbatim>\<open>self.train()\<close> whatever the mode was.
\<close>

theorem generate_mode_counterexample:
  "training ((small 2)\<lparr>training := False\<rparr>) = False
   \<and> fst (generate ((small 2)\<lparr>training := False\<rparr>) (\<lambda>cs. 0) \<lparr>ncols = 1, irows = [[0]]\<rparr> 0)
       = Inr \<lparr>ncols = 1, irows = [[0]]\<rparr>
   \<and> training (snd (generate ((small 2)\<lparr>training := False\<rparr>) (\<lambda>cs. 0)
                      \<lparr>ncols = 1, irows = [[0]]\<rparr> 0)) = True"
  by (simp add: generate_def)

theorem generate_mode_after_witness:
  "fst (generate (small 2) (\<lambda>cs. 0) \<lparr>ncols = 1, irows = [[0]]\<rparr> 0) = Inr \<lparr>ncols = 1, irows = [[0]]\<rparr>
   \<and> snd (generate (small 2) (\<lambda>cs. 0) \<lparr>ncols = 1, irows = [[0]]\<rparr> 0) = (small 2)\<lparr>training := True\<rparr>
   \<and> fst (generate (small 2) (\<lambda>cs. 0) \<lparr>ncols = 0, irows = [[]]\<rparr> 1) = Inl IndexError
   \<and> snd (generate (small 2) (\<lambda>cs. 0) \<lparr>ncols = 0, irows = [[]]\<rparr> 1) = (small 2)\<lparr>training := False\<rparr>"
proof -
  let ?e = "\<lparr>ncols = 0, irows = [[]]\<rparr>"
  have a: "fst (generate (small 2) (\<lambda>cs. 0) \<lparr>ncols = 1, irows = [[0]]\<rparr> 0) = Inr \<lparr>ncols = 1, irows = [[0]]\<rparr>"
    by (simp add: generate_def)
  have i: "itensor_ok ?e" "ids_ok (m_vocab_size (cfg (small 2))) ?e" "ncols ?e = 0"
    by (simp_all add: itensor_ok_def ids_ok_def)
  have h: "m_head_size (cfg (small 2)) = m_embedding_dim (cfg (small 2))" by simp
  have "generate (small 2) (\<lambda>cs. 0) ?e (Suc 0) = (Inl IndexError, (small 2)\<lparr>training := False\<rparr>)"
    by (rule generate_empty_seed[OF small_2_ok h i])
  then have b: "fst (generate (small 2) (\<lambda>cs. 0) ?e 1) = Inl IndexError" by simp
  show ?thesis
    using a b
      generate_mode_after [of "small 2" "\<lambda>cs. 0" "\<lparr>ncols = 1, irows = [[0]]\<rparr>" 0
        "\<lparr>ncols = 1, irows = [[0]]\<rparr>" IndexError]
      generate_mode_after [of "small 2" "\<lambda>cs. 0" ?e 1 ?e IndexError]
    by simp
qed

theorem forward_context_overflow_witness:
  "model_ok (small 2)
   \<and> m_block_size (cfg (small 2)) < ncols \<lparr>ncols = 3, irows = [[0, 1, 0]]\<rparr>
   \<and> forward (small 2) (\<lambda>cs. 0) \<lparr>ncols = 3, irows = [[0, 1, 0]]\<rparr> None = Inl IndexError
   \<and> ncols \<lparr>ncols = 2, irows = [[0, 1]]\<rparr> \<le> m_block_size (cfg (small 2))
   \<and> embedding_seq (pos_embedding (small 2)) (map int [0..<2]) = Inr (take 2 (pos_embedding (small 2)))
   \<and> forward (small 2) (\<lambda>cs. 0) \<lparr>ncols = 2, irows = [[0, 1]]\<rparr> None \<noteq> Inl IndexError"
  using forward_context_overflow [OF small_2_ok, of "\<lparr>ncols = 3, irows = [[0, 1, 0]]\<rparr>" "\<lambda>cs. 0" None]
    forward_context_overflow [OF small_2_ok, of "\<lparr>ncols = 2, irows = [[0, 1]]\<rparr>" "\<lambda>cs. 0" None]
    small_2_ok
  by (simp add: itensor_ok_def ids_ok_def id_ok_def targets_ok_def)

text \<open>
  Claim C9, as stated, has the forward pass yield logits of shape \<open>(B, T, vocab_size)\<close>
  whenever \<open>head_size = embedding_dim\<close>.  Called with targets, \<^verbatim>\<open>forward\<close> returns the
  flattened view of \<open>B*T\<close> rows instead.
\<close>

theorem forward_flat_logits_counterexample:
  "model_ok (small 2) \<and> m_head_size (cfg (small 2)) = m_embedding_dim (cfg (small 2))
   \<and> (\<exists>l loss. forward (small 2) (\<lambda>cs. 0) \<lparr>ncols = 2, irows = [[0, 1]]\<rparr>
                   (Some \<lparr>ncols = 2, irows = [[- 1, 0]]\<rparr>) = Inr (Logits2 l, Some loss)
                \<and> length l = 1 * 2)"
proof -
  let ?s = "\<lparr>ncols = 2, irows = [[0, 1]]\<rparr>" and ?t = "Some \<lparr>ncols = 2, irows = [[- 1, 0]]\<rparr>"
  have i: "itensor_ok ?s" "ids_ok (m_vocab_size (cfg (small 2))) ?s"
    "ncols ?s \<le> m_block_size (cfg (small 2))"
    "targets_ok (m_vocab_size (cfg (small 2))) (length (irows ?s) * ncols ?s) ?t"
    by (simp_all add: itensor_ok_def ids_ok_def id_ok_def targets_ok_def)
  have h: "m_head_size (cfg (small 2)) = m_embedding_dim (cfg (small 2))" by simp
  have "\<exists>loss. forward (small 2) (\<lambda>cs. 0) ?s ?t
          = Inr (Logits2 (concat (logits3 (small 2) (\<lambda>cs. 0) ?s)), Some loss)"
    by (rule forward_ok(2)[OF small_2_ok i h]) simp
  moreover have "length (concat (logits3 (small 2) (\<lambda>cs. 0) ?s)) = 1 * 2"
    using concat_logits3(1)[OF small_2_ok i(1,3), of "\<lambda>cs. 0"] by simp
  ultimately show ?thesis using small_2_ok h by blast
qed

theorem lm_head_input_size_witness:
  "model_ok (small 4) \<and> model_ok (small 2)
   \<and> itensor_ok \<lparr>ncols = 2, irows = [[0, 1]]\<rparr> \<and> ids_ok 2 \<lparr>ncols = 2, irows = [[0, 1]]\<rparr>
   \<and> ncols \<lparr>ncols = 2, irows = [[0, 1]]\<rparr> \<le> 2
   \<and> m_head_size (cfg (small 4)) \<noteq> m_embedding_dim (cfg (small 4))
   \<and> forward (small 4) (\<lambda>cs. 0) \<lparr>ncols = 2, irows = [[0, 1]]\<rparr> None = Inl RuntimeError
   \<and> m_head_size (cfg (small 2)) = m_embedding_dim (cfg (small 2))
   \<and> (\<exists>l. forward (small 2) (\<lambda>cs. 0) \<lparr>ncols = 2, irows = [[0, 1]]\<rparr> None = Inr (Logits3 l, None)
          \<and> length l = 1)"
proof -
  let ?s = "\<lparr>ncols = 2, irows = [[0, 1]]\<rparr>"
  have i: "itensor_ok ?s" "ids_ok 2 ?s" "ncols ?s \<le> 2" "targets_ok 2 (length (irows ?s) * ncols ?s) None"
    by (simp_all add: itensor_ok_def ids_ok_def id_ok_def targets_ok_def)
  have a: "forward (small 4) (\<lambda>cs. 0) ?s None = Inl RuntimeError"
    using lm_head_input_size [OF small_4_ok, of ?s None "\<lambda>cs. 0"] i by simp
  have b: "\<exists>l. forward (small 2) (\<lambda>cs. 0) ?s None = Inr (Logits3 l, None) \<and> length l = 1"
    using lm_head_input_size [OF small_2_ok, of ?s None "\<lambda>cs. 0"] i by auto
  show ?thesis using a b i small_2_ok small_4_ok by simp
qed


section \<open>Causality of attention\<close>

lemma sum_list_upt_cut:
  fixes f :: "nat \<Rightarrow> real"
  assumes "n \<le> S" "\<And>j. n \<le> j \<Longrightarrow> j < S \<Longrightarrow> f j = 0"
  shows "(\<Sum>j\<leftarrow>[0..<S]. f j) = (\<Sum>j\<leftarrow>[0..<n]. f j)"
proof -
  have "[0..<S] = [0..<n] @ [n..<S]" using assms(1) by (metis le_add_diff_inverse upt_add_eq_append zero_le)
  moreover have z: "map f [n..<S] = map (\<lambda>j. 0) [n..<S]"
    using assms(2) by (intro map_cong) auto
  have "(\<Sum>j\<leftarrow>[n..<S]. f j) = 0" unfolding z by simp
  ultimately show ?thesis by simp
qed

lemma sum_list_upt_cong:
  fixes f g :: "nat \<Rightarrow> real"
  assumes "\<And>j. j < n \<Longrightarrow> f j = g j"
  shows "(\<Sum>j\<leftarrow>[0..<n]. f j) = (\<Sum>j\<leftarrow>[0..<n]. g j)"
  using assms by (intro arg_cong[where f = sum_list] map_cong) auto

lemma softmax_nth:
  "j < length ss \<Longrightarrow> softmax ss ! j = expo (ss ! j) / sum_list (map expo ss)"
  by (simp add: softmax_def Let_def)

lemma sdpa_row:
  assumes "i < length q" "i < length k"
  shows "scaled_dot_product_attention E q k v 0 tape ! i = attend E i ((!) k) ((!) v) (q ! i)"
proof -
  let ?sc = "1 / sqrt (real E)"
  let ?S = "length k"
  let ?ss = "map (\<lambda>j. attn_bias i j (dot (q ! i) (k ! j) * ?sc)) [0..<?S]"
  let ?e = "\<lambda>j. if j \<le> i then exp (dot (q ! i) (k ! j) * ?sc) else 0"
  have e: "expo (?ss ! j) = ?e j" if "j < ?S" for j
    using that by (simp add: attn_bias_def expo_def)
  have "sum_list (map expo ?ss) = (\<Sum>j\<leftarrow>[0..<?S]. ?e j)"
    by (simp add: comp_def attn_bias_def expo_def if_distrib cong: if_cong)
  also have "\<dots> = (\<Sum>j\<leftarrow>[0..<Suc i]. ?e j)"
    using assms(2) by (intro sum_list_upt_cut) auto
  also have "\<dots> = (\<Sum>j\<leftarrow>[0..<Suc i]. exp (dot (q ! i) (k ! j) * ?sc))"
    by (intro sum_list_upt_cong) auto
  finally have z: "sum_list (map expo ?ss) = (\<Sum>j\<leftarrow>[0..<Suc i]. exp (dot (q ! i) (k ! j) * ?sc))" .
  have w: "softmax ?ss ! j = ?e j / (\<Sum>j'\<leftarrow>[0..<Suc i]. exp (dot (q ! i) (k ! j') * ?sc))"
    if "j < ?S" for j
    using that softmax_nth[of j ?ss] e[OF that] z by simp
  have row: "(\<Sum>j\<leftarrow>[0..<?S]. softmax ?ss ! j * (v ! j ! c))
       = (\<Sum>j\<leftarrow>[0..<Suc i]. exp (dot (q ! i) (k ! j) * ?sc)
                / (\<Sum>j'\<leftarrow>[0..<Suc i]. exp (dot (q ! i) (k ! j') * ?sc)) * (v ! j ! c))" for c
  proof -
    have "(\<Sum>j\<leftarrow>[0..<?S]. softmax ?ss ! j * (v ! j ! c))
        = (\<Sum>j\<leftarrow>[0..<Suc i]. softmax ?ss ! j * (v ! j ! c))"
      using assms(2) w by (intro sum_list_upt_cut) auto
    also have "\<dots> = (\<Sum>j\<leftarrow>[0..<Suc i]. exp (dot (q ! i) (k ! j) * ?sc)
                / (\<Sum>j'\<leftarrow>[0..<Suc i]. exp (dot (q ! i) (k ! j') * ?sc)) * (v ! j ! c))"
      using assms(2) w by (intro sum_list_upt_cong) auto
    finally show ?thesis .
  qed
  have "scaled_dot_product_attention E q k v 0 tape ! i
      = map (\<lambda>c. \<Sum>j\<leftarrow>[0..<?S]. softmax ?ss ! j * (v ! j ! c)) [0..<E]"
    using assms(1) by (simp add: scaled_dot_product_attention_def Let_def del: upt_Suc)
  also have "\<dots> = attend E i ((!) k) ((!) v) (q ! i)"
    by (simp only: row attend_def)
  finally show ?thesis .
qed

lemma attend_cong:
  assumes "\<And>j. j \<le> i \<Longrightarrow> k j = k' j" "\<And>j. j \<le> i \<Longrightarrow> v j = v' j"
  shows "attend E i k v qi = attend E i k' v' qi"
proof -
  have 1: "(\<Sum>j'\<leftarrow>[0..<Suc i]. exp (dot qi (k j') * (1 / sqrt (real E))))
         = (\<Sum>j'\<leftarrow>[0..<Suc i]. exp (dot qi (k' j') * (1 / sqrt (real E))))"
    using assms(1) by (intro sum_list_upt_cong) auto
  have "(\<Sum>j\<leftarrow>[0..<Suc i]. exp (dot qi (k j) * (1 / sqrt (real E)))
                   / (\<Sum>j'\<leftarrow>[0..<Suc i]. exp (dot qi (k j') * (1 / sqrt (real E)))) * (v j ! c))
      = (\<Sum>j\<leftarrow>[0..<Suc i]. exp (dot qi (k' j) * (1 / sqrt (real E)))
                   / (\<Sum>j'\<leftarrow>[0..<Suc i]. exp (dot qi (k' j') * (1 / sqrt (real E)))) * (v' j ! c))" for c
    unfolding 1 using assms by (intro sum_list_upt_cong) auto
  then show ?thesis by (simp add: attend_def)
qed

lemma prefix_nth:
  assumes "take n x = take n x'" "j < n"
  shows "x ! j = x' ! j"
  using assms by (metis nth_take)

lemma mha_forward_causal:
  assumes "take (Suc t) x = take (Suc t) x'" "t < length x" "t < length x'"
  shows "mha_forward a False tape x ! t = mha_forward a False tape x' ! t"
proof -
  let ?h = "att_head_size a"
  let ?K = "\<lambda>x. map (linear_row (att_key a)) x"
  let ?Q = "\<lambda>x. map (linear_row (att_query a)) x"
  let ?V = "\<lambda>x. map (linear_row (att_value a)) x"
  let ?head = "\<lambda>x hx. scaled_dot_product_attention ?h (head_of ?h hx (?Q x)) (head_of ?h hx (?K x))
                       (head_of ?h hx (?V x)) 0 (sub (sub tape 0) hx)"
  have xt: "x ! j = x' ! j" if "j \<le> t" for j
    using prefix_nth[OF assms(1), of j] that by simp
  have hd: "?head x hx ! t = ?head x' hx ! t" for hx
  proof -
    have a: "?head y hx ! t
          = attend ?h t ((!) (head_of ?h hx (?K y))) ((!) (head_of ?h hx (?V y)))
              (head_of ?h hx (?Q y) ! t)" if "t < length y" for y
      using that by (intro sdpa_row) (simp_all add: head_of_def)
    have q: "head_of ?h hx (?Q x) ! t = head_of ?h hx (?Q x') ! t"
      using assms(2,3) xt[of t] by (simp add: head_of_def)
    have kv: "head_of ?h hx (?K x) ! j = head_of ?h hx (?K x') ! j"
             "head_of ?h hx (?V x) ! j = head_of ?h hx (?V x') ! j" if "j \<le> t" for j
      using that assms(2,3) xt[of j] by (simp_all add: head_of_def)
    show ?thesis
      unfolding a[OF assms(2)] a[OF assms(3)] q by (rule attend_cong) (simp_all add: kv)
  qed
  have pick: "map (\<lambda>hx. map (?head y) [0..<att_num_heads a] ! hx ! t) [0..<att_num_heads a]
       = map (\<lambda>hx. ?head y hx ! t) [0..<att_num_heads a]" for y
    by (intro map_cong) auto
  have "mha_forward a False tape y ! t
       = linear_row (att_proj a) (concat (map (\<lambda>hx. ?head y hx ! t) [0..<att_num_heads a]))"
    if "t < length y" for y
  proof -
    have "mha_forward a False tape y ! t
       = linear_row (att_proj a)
           (concat (map (\<lambda>hx. map (?head y) [0..<att_num_heads a] ! hx ! t) [0..<att_num_heads a]))"
      using that by (simp add: mha_forward_def Let_def del: upt_Suc)
    then show ?thesis unfolding pick .
  qed
  then show ?thesis using assms(2,3) hd by simp
qed

section \<open>Causality of the model\<close>

lemma take_take_le: "n \<le> k \<Longrightarrow> take n (take k xs) = take n xs"
  by (simp add: min_def)

lemma mha_forward_prefix:
  assumes "take n x = take n x'" "n \<le> length x" "n \<le> length x'"
  shows "take n (mha_forward a False tape x) = take n (mha_forward a False tape x')"
proof (rule nth_equalityI)
  show "length (take n (mha_forward a False tape x)) = length (take n (mha_forward a False tape x'))"
    using assms(2,3) by simp
next
  fix t assume "t < length (take n (mha_forward a False tape x))"
  then have t: "t < n" by simp
  have "take (Suc t) x = take (Suc t) (take n x)" using t by (simp add: take_take_le)
  also have "\<dots> = take (Suc t) x'" using t assms(1) by (simp add: take_take_le)
  finally have "mha_forward a False tape x ! t = mha_forward a False tape x' ! t"
    using t assms(2,3) by (intro mha_forward_causal) auto
  then show "take n (mha_forward a False tape x) ! t = take n (mha_forward a False tape x') ! t"
    using t by simp
qed

lemma take_mat_add: "take n (mat_add x y) = mat_add (take n x) (take n y)"
  by (simp add: mat_add_def take_map take_zip)

lemma ff_forward_prefix:
  assumes "take n x = take n x'"
  shows "take n (ff_forward f False tape x) = take n (ff_forward f False tape x')"
  using assms by (simp add: ff_forward_def take_map)

lemma block_forward_prefix:
  assumes "take n x = take n x'" "n \<le> length x" "n \<le> length x'"
  shows "take n (block_forward b False tape x) = take n (block_forward b False tape x')"
proof -
  let ?a = "\<lambda>y. mat_add y (mha_forward (blk_sa b) False (sub tape 0) (map (layer_norm_row (blk_ln1 b)) y))"
  have "take n (mha_forward (blk_sa b) False (sub tape 0) (map (layer_norm_row (blk_ln1 b)) x))
      = take n (mha_forward (blk_sa b) False (sub tape 0) (map (layer_norm_row (blk_ln1 b)) x'))"
    using assms by (intro mha_forward_prefix) (simp_all add: take_map)
  then have 1: "take n (?a x) = take n (?a x')" using assms(1) by (simp add: take_mat_add)
  then have "take n (ff_forward (blk_ff b) False (sub tape 1) (map (layer_norm_row (blk_ln2 b)) (?a x)))
      = take n (ff_forward (blk_ff b) False (sub tape 1) (map (layer_norm_row (blk_ln2 b)) (?a x')))"
    by (intro ff_forward_prefix) (simp add: take_map)
  then show ?thesis using 1 by (simp add: block_forward_def Let_def take_mat_add)
qed

lemma blocks_forward_prefix:
  assumes "take n x = take n x'" "n \<le> length x" "n \<le> length x'"
  shows "take n (blocks_forward bs i False tape x) = take n (blocks_forward bs i False tape x')"
  using assms
proof (induction bs arbitrary: i x x')
  case Nil
  then show ?case by simp
next
  case (Cons b bs)
  have "take n (block_forward b False (sub tape i) x) = take n (block_forward b False (sub tape i) x')"
    using Cons.prems by (rule block_forward_prefix)
  then have "take n (blocks_forward bs (Suc i) False tape (block_forward b False (sub tape i) x))
           = take n (blocks_forward bs (Suc i) False tape (block_forward b False (sub tape i) x'))"
    using Cons.prems(2,3) by (intro Cons.IH) simp_all
  then show ?case by simp
qed

lemma lookup_take: "take n (lookup w ids) = lookup w (take n ids)"
  by (simp add: lookup_def take_map)

lemma map_enumerate_nth:
  "b < length xs \<Longrightarrow> map (\<lambda>(b, x). F b x) (enumerate 0 xs) ! b = F b (xs ! b)"
  by (simp add: nth_enumerate_eq)

lemma logits3_nth:
  assumes "b < length (irows idx)"
  shows "logits3 m tape idx ! b =
     map (linear_row (lm_head m))
       (map (layer_norm_row (ln_f m))
          (blocks_forward (blocks m) 0 (training m) (sub tape b)
             (mat_add (lookup (token_embedding m) (irows idx ! b))
                      (take (ncols idx) (pos_embedding m)))))"
  using assms by (simp add: logits3_def hidden_def nth_enumerate_eq)

lemma logits3_prefix:
  assumes ev: "training m = False"
    and ok: "itensor_ok idx" "itensor_ok idx'"
    and T: "n \<le> ncols idx" "n \<le> ncols idx'" "ncols idx \<le> length (pos_embedding m)"
           "ncols idx' \<le> length (pos_embedding m)"
    and b: "b < length (irows idx)" "b < length (irows idx')"
    and eq: "take n (irows idx ! b) = take n (irows idx' ! b)"
  shows "take n (logits3 m tape idx ! b) = take n (logits3 m tape idx' ! b)"
proof -
  let ?x = "\<lambda>i. mat_add (lookup (token_embedding m) (irows i ! b)) (take (ncols i) (pos_embedding m))"
  have l: "length (irows idx ! b) = ncols idx" "length (irows idx' ! b) = ncols idx'"
    using ok b by (simp_all add: itensor_ok_def list_all_iff)
  have lx: "length (?x idx) = ncols idx" "length (?x idx') = ncols idx'"
    using l T by (simp_all add: lookup_def)
  have "take n (?x idx) = take n (?x idx')"
    using eq T by (simp add: take_mat_add lookup_take take_take_le)
  then have "take n (blocks_forward (blocks m) 0 False (sub tape b) (?x idx))
           = take n (blocks_forward (blocks m) 0 False (sub tape b) (?x idx'))"
    using lx T by (intro blocks_forward_prefix) simp_all
  then show ?thesis
    using b ev by (simp add: logits3_nth take_map)
qed

lemma nth_concat_uniform:
  assumes "\<forall>xs\<in>set xss. length xs = T" "b < length xss" "t < T"
  shows "concat xss ! (b * T + t) = xss ! b ! t"
  using assms
proof (induction xss arbitrary: b)
  case Nil
  then show ?case by simp
next
  case (Cons xs xss)
  show ?case
  proof (cases b)
    case 0
    then show ?thesis using Cons.prems by (simp add: nth_append)
  next
    case (Suc b')
    then have "concat (xs # xss) ! (b * T + t) = concat xss ! (b' * T + t)"
      using Cons.prems by (simp add: nth_append)
    then show ?thesis using Cons Suc by simp
  qed
qed

lemma forward_logits_at:
  assumes "forward m tape idx targets = Inr (lg, loss)" "itensor_ok idx"
    "b < length (irows idx)" "t < ncols idx"
  shows "logits_at (ncols idx) lg b t = logits3 m tape idx ! b ! t"
    and "ncols idx \<le> length (pos_embedding m)"
proof -
  show T: "ncols idx \<le> length (pos_embedding m)"
    using assms(1) by (auto simp: forward_cases split: if_splits)
  have rows: "\<forall>xs\<in>set (logits3 m tape idx). length xs = ncols idx"
    using hidden_rows[OF assms(2) T, of tape] by (auto simp: logits3_def list_all_iff)
  have len: "b < length (logits3 m tape idx)" using assms(3) by (simp add: logits3_def)
  have "lg = Logits3 (logits3 m tape idx) \<or> lg = Logits2 (concat (logits3 m tape idx))"
    using assms(1) by (auto simp: forward_cases split: if_splits option.splits sum.splits)
  then show "logits_at (ncols idx) lg b t = logits3 m tape idx ! b ! t"
    using nth_concat_uniform[OF rows len assms(4)] by (auto simp: logits_at_def)
qed

text \<open>
  Claim C1: in eval mode the output of the attention layer at position \<open>t\<close> is the same for
  two inputs that agree on the positions up to \<open>t\<close>, whatever they hold after it and however
  long they are; and for two batches of token ids whose rows \<open>b\<close> agree on the positions up
  to \<open>t\<close>, two runs of the forward pass of a model in eval mode return the same logits, and
  so the same probability distribution, at position \<open>t\<close> of row \<open>b\<close>.  Changing the ids at
  positions after \<open>t\<close> is a special case.  The parameters and the tape are the same in both
  runs and otherwise arbitrary.
\<close>

theorem causality:
  "(take (Suc t) x = take (Suc t) x' \<and> t < length x \<and> t < length x' \<longrightarrow>
      mha_forward a False tape x ! t = mha_forward a False tape x' ! t)
   \<and> (training m = False \<and> itensor_ok idx \<and> itensor_ok idx'
       \<and> b < length (irows idx) \<and> b < length (irows idx') \<and> t < ncols idx \<and> t < ncols idx'
       \<and> take (Suc t) (irows idx ! b) = take (Suc t) (irows idx' ! b)
       \<and> forward m tape idx targets = Inr (lg, loss) \<and> forward m tape idx' targets' = Inr (lg', loss')
      \<longrightarrow> logits_at (ncols idx) lg b t = logits_at (ncols idx') lg' b t
          \<and> softmax (map Some (logits_at (ncols idx) lg b t))
              = softmax (map Some (logits_at (ncols idx') lg' b t)))"
proof (rule conjI; rule impI)
  assume "take (Suc t) x = take (Suc t) x' \<and> t < length x \<and> t < length x'"
  then show "mha_forward a False tape x ! t = mha_forward a False tape x' ! t"
    by (intro mha_forward_causal) auto
next
  assume h: "training m = False \<and> itensor_ok idx \<and> itensor_ok idx'
       \<and> b < length (irows idx) \<and> b < length (irows idx') \<and> t < ncols idx \<and> t < ncols idx'
       \<and> take (Suc t) (irows idx ! b) = take (Suc t) (irows idx' ! b)
       \<and> forward m tape idx targets = Inr (lg, loss) \<and> forward m tape idx' targets' = Inr (lg', loss')"
  then have f: "forward m tape idx targets = Inr (lg, loss)" "forward m tape idx' targets' = Inr (lg', loss')"
    and ok: "itensor_ok idx" "itensor_ok idx'" and b: "b < length (irows idx)" "b < length (irows idx')"
    and t: "t < ncols idx" "t < ncols idx'" by simp_all
  note 1 = forward_logits_at[OF f(1) ok(1) b(1) t(1)]
  note 2 = forward_logits_at[OF f(2) ok(2) b(2) t(2)]
  have "take (Suc t) (logits3 m tape idx ! b) = take (Suc t) (logits3 m tape idx' ! b)"
    using h t 1(2) 2(2) by (intro logits3_prefix) auto
  then have "logits3 m tape idx ! b ! t = logits3 m tape idx' ! b ! t"
    by (rule prefix_nth) simp
  then have "logits_at (ncols idx) lg b t = logits_at (ncols idx') lg' b t"
    using 1(1) 2(1) by simp
  then show "logits_at (ncols idx) lg b t = logits_at (ncols idx') lg' b t
          \<and> softmax (map Some (logits_at (ncols idx) lg b t))
              = softmax (map Some (logits_at (ncols idx') lg' b t))" by simp
qed

theorem causality_witness:
  "take (Suc 0) [[1, 2], [3, 4 :: real]] = take (Suc 0) [[1, 2], [5, 6], [7, 8]]
   \<and> 0 < length [[1, 2], [3, 4 :: real]] \<and> 0 < length [[1, 2], [5, 6], [7, 8 :: real]]
   \<and> mha_forward (blk_sa (blocks (small 2) ! 0)) False (\<lambda>cs. 0) [[1, 2], [3, 4]] ! 0
       = mha_forward (blk_sa (blocks (small 2) ! 0)) False (\<lambda>cs. 0) [[1, 2], [5, 6], [7, 8]] ! 0
   \<and> training ((small 2)\<lparr>training := False\<rparr>) = False
   \<and> itensor_ok \<lparr>ncols = 2, irows = [[0, 1]]\<rparr> \<and> itensor_ok \<lparr>ncols = 2, irows = [[0, 0]]\<rparr>
   \<and> take (Suc 0) (irows \<lparr>ncols = 2, irows = [[0, 1]]\<rparr> ! 0)
       = take (Suc 0) (irows \<lparr>ncols = 2, irows = [[0, 0]]\<rparr> ! 0)
   \<and> (\<exists>l l'. forward ((small 2)\<lparr>training := False\<rparr>) (\<lambda>cs. 0) \<lparr>ncols = 2, irows = [[0, 1]]\<rparr> None
               = Inr (Logits3 l, None)
          \<and> forward ((small 2)\<lparr>training := False\<rparr>) (\<lambda>cs. 0) \<lparr>ncols = 2, irows = [[0, 0]]\<rparr> None
               = Inr (Logits3 l', None)
          \<and> l ! 0 ! 0 = l' ! 0 ! 0
          \<and> softmax (map Some (l ! 0 ! 0)) = softmax (map Some (l' ! 0 ! 0)))"
proof -
  let ?m = "(small 2)\<lparr>training := False\<rparr>"
  let ?i = "\<lparr>ncols = 2, irows = [[0, 1]]\<rparr>" and ?i' = "\<lparr>ncols = 2, irows = [[0, 0]]\<rparr>"
  have ok: "model_ok ?m" using small_2_ok by (simp add: model_ok_def)
  have i: "itensor_ok ?i" "itensor_ok ?i'" "ids_ok (m_vocab_size (cfg ?m)) ?i"
    "ids_ok (m_vocab_size (cfg ?m)) ?i'"
    by (simp_all add: itensor_ok_def ids_ok_def id_ok_def)
  have h: "m_head_size (cfg ?m) = m_embedding_dim (cfg ?m)" by simp
  have f: "forward ?m (\<lambda>cs. 0) ?i None = Inr (Logits3 (logits3 ?m (\<lambda>cs. 0) ?i), None)"
    by (rule forward_ok(1)[OF ok i(1) i(3) _ _ h]) (simp_all add: targets_ok_def)
  have f': "forward ?m (\<lambda>cs. 0) ?i' None = Inr (Logits3 (logits3 ?m (\<lambda>cs. 0) ?i'), None)"
    by (rule forward_ok(1)[OF ok i(2) i(4) _ _ h]) (simp_all add: targets_ok_def)
  note c = causality [where t = 0 and x = "[[1, 2], [3, 4]]" and x' = "[[1, 2], [5, 6], [7, 8]]"
      and a = "blk_sa (blocks (small 2) ! 0)" and tape = "\<lambda>cs. 0" and m = ?m and idx = ?i
      and idx' = ?i' and b = 0 and targets = None and targets' = None
      and lg = "Logits3 (logits3 ?m (\<lambda>cs. 0) ?i)" and lg' = "Logits3 (logits3 ?m (\<lambda>cs. 0) ?i')"
      and loss = None and loss' = None]
  have a: "mha_forward (blk_sa (blocks (small 2) ! 0)) False (\<lambda>cs. 0) [[1, 2], [3, 4]] ! 0
       = mha_forward (blk_sa (blocks (small 2) ! 0)) False (\<lambda>cs. 0) [[1, 2], [5, 6], [7, 8]] ! 0"
    using c by simp
  have l: "logits3 ?m (\<lambda>cs. 0) ?i ! 0 ! 0 = logits3 ?m (\<lambda>cs. 0) ?i' ! 0 ! 0"
    using c f f' i(1,2) by (simp add: logits_at_def)
  show ?thesis using a l f f' i(1,2) by simp
qed


end
